theory Spec2Isabelle
  imports Main
begin

section \<open>Strings of the source language\<close>

text \<open>
  A source string is modelled as a \<^typ>\<open>string\<close> whose characters are the code units
  below 256.  The white space of the source (what \<^verbatim>\<open>\s\<close> matches and what
  \<^verbatim>\<open>trim\<close> strips) is, in that range: tab, line feed, vertical tab, form feed,
  carriage return, space and no-break space.
\<close>

definition is_space :: "char \<Rightarrow> bool" where
  "is_space c = (c = CHR 0x09 \<or> c = CHR 0x0A \<or> c = CHR 0x0B \<or> c = CHR 0x0C
      \<or> c = CHR 0x0D \<or> c = CHR 0x20 \<or> c = CHR 0xA0)"

text \<open>The character class \<^verbatim>\<open>[\n\r\t]\<close>.\<close>

definition is_nrt :: "char \<Rightarrow> bool" where
  "is_nrt c = (c = CHR 0x0A \<or> c = CHR 0x0D \<or> c = CHR 0x09)"

text \<open>\<^verbatim>\<open>s.trim()\<close>\<close>

definition trim :: "string \<Rightarrow> string" where
  "trim s = rev (dropWhile is_space (rev (dropWhile is_space s)))"

text \<open>
  \<^verbatim>\<open>s.split(c)\<close> for a one-character separator: \<open>n\<close> separators give \<open>n + 1\<close>
  pieces, and the empty string gives the one empty piece.
\<close>

fun split_on :: "char \<Rightarrow> string \<Rightarrow> string list" where
  "split_on c [] = [[]]"
| "split_on c (x # xs) =
     (if x = c then [] # split_on c xs
      else (case split_on c xs of
              [] \<Rightarrow> [[x]]
            | p # ps \<Rightarrow> (x # p) # ps))"

text \<open>\<^verbatim>\<open>pieces.join(sep)\<close>\<close>

fun join :: "string \<Rightarrow> string list \<Rightarrow> string" where
  "join sep [] = []"
| "join sep [p] = p"
| "join sep (p # q # ps) = p @ sep @ join sep (q # ps)"

text \<open>
  \<^verbatim>\<open>s.replace(/[class]+/g, ' ')\<close>: every maximal run of characters of the class is
  replaced by one space; the scan goes on after the run.
\<close>

function replace_runs :: "(char \<Rightarrow> bool) \<Rightarrow> string \<Rightarrow> string" where
  "replace_runs P [] = []"
| "replace_runs P (c # cs) =
     (if P c then CHR 0x20 # replace_runs P (dropWhile P cs)
      else c # replace_runs P cs)"
  by pat_completeness auto
termination
  by (relation "measure (\<lambda>(P, s). length s)")
     (auto simp: le_imp_less_Suc length_dropWhile_le)

text \<open>
  The text handler's
  \<^verbatim>\<open>text.replace(/[\n\r\t]+/g, ' ').replace(/\s+/g, ' ')\<close>.
\<close>

definition cleanText :: "string \<Rightarrow> string" where
  "cleanText t = replace_runs is_space (replace_runs is_nrt t)"

section \<open>Render nodes and style maps\<close>

text \<open>
  The values of a style map.  The float parser is a built-in of the source language
  and floating point is not interpreted here: \<open>ParseFloat s\<close> stands for the number
  that the built-in returns on \<open>s\<close>, and \<open>Number n\<close> for a numeric literal of
  the source.
\<close>

datatype style_value = Number int | ParseFloat string | Str string

datatype style_prop =
    fontSize | fontFamily | fontWeight | color | textAlign | marginTop | marginBottom
  | backgroundColor | borderBottom | padding | width

type_synonym styles = "style_prop \<Rightarrow> style_value option"

datatype node_type = T_text | T_break | T_image | T_table | T_row | T_cell | T_block

text \<open>
  A render node with its fields type, text, src, styles and children; a field that
  the source leaves out, or sets to undefined, is \<open>None\<close>.
\<close>

datatype RenderNode =
  RenderNode (n_type: node_type) (n_text: "string option") (n_src: "string option")
    (n_styles: styles) (n_children: "RenderNode list option")

text \<open>The attribute object of an open-tag event, read by \<open>map_of\<close>.\<close>

type_synonym attribs = "(string \<times> string) list"

section \<open>Inline declarations: parseStyles\<close>

text \<open>
  One round of the loop of parseStyles over the pieces between semicolons.  The
  declaration is split at every colon and the first two trimmed pieces are the key and
  the value.  The property names are pairwise different, so the sequence of
  conditionals of the source is written as one chain.
\<close>

definition parseStyles_rule :: "string \<Rightarrow> styles \<Rightarrow> styles" where
  "parseStyles_rule rule st =
     (case map trim (split_on (CHR '':'') rule) of
        key # val # _ \<Rightarrow>
          if key = [] \<or> val = [] then st
          else if key = ''font-size'' then st(fontSize \<mapsto> ParseFloat val)
          else if key = ''color'' then st(color \<mapsto> Str val)
          else if key = ''text-align'' then st(textAlign \<mapsto> Str val)
          else if key = ''font-weight''
            then st(fontWeight \<mapsto> Str (if val = ''bold'' then ''bold'' else ''normal''))
          else if key = ''margin-top'' then st(marginTop \<mapsto> ParseFloat val)
          else if key = ''margin-bottom'' then st(marginBottom \<mapsto> ParseFloat val)
          else if key = ''margin''
            then st(marginTop \<mapsto> ParseFloat val, marginBottom \<mapsto> ParseFloat val)
          else if key = ''background-color'' then st(backgroundColor \<mapsto> Str val)
          else if key = ''border-bottom'' then st(borderBottom \<mapsto> Str val)
          else if key = ''padding'' then st(padding \<mapsto> ParseFloat val)
          else if key = ''width'' then st(width \<mapsto> Str val)
          else st
      | _ \<Rightarrow> st)"

definition parseStyles :: "string option \<Rightarrow> styles" where
  "parseStyles styleStr =
     (case styleStr of
        None \<Rightarrow> Map.empty
      | Some s \<Rightarrow> if s = [] then Map.empty
                 else fold parseStyles_rule (split_on (CHR '';'') s) Map.empty)"

section \<open>Style text: extractStyleTags and parseCss\<close>

fun strip_prefix :: "string \<Rightarrow> string \<Rightarrow> string option" where
  "strip_prefix [] s = Some s"
| "strip_prefix (p # ps) [] = None"
| "strip_prefix (p # ps) (c # cs) = (if p = c then strip_prefix ps cs else None)"

text \<open>
  \<open>until pat s\<close>: the text of \<open>s\<close> before the first occurrence of \<open>pat\<close> and the
  text after that occurrence.  This is what a lazy group of arbitrary characters
  followed by the literal \<open>pat\<close> matches.
\<close>

fun until :: "string \<Rightarrow> string \<Rightarrow> (string \<times> string) option" where
  "until pat [] = (if pat = [] then Some ([], []) else None)"
| "until pat (c # cs) =
     (case strip_prefix pat (c # cs) of
        Some r \<Rightarrow> Some ([], r)
      | None \<Rightarrow> (case until pat cs of
                   None \<Rightarrow> None
                 | Some (a, r) \<Rightarrow> Some (c # a, r)))"

text \<open>
  A match of the style-block pattern at the start of \<open>s\<close>: the literal opening of
  a style tag, every character up to the next closing angle bracket (the greedy class
  cannot cross one, so there is no other way to match), that bracket, the lazy group,
  and the literal closing tag.  The result is the group and the text after the match.
\<close>

definition style_tag_match :: "string \<Rightarrow> (string \<times> string) option" where
  "style_tag_match s =
     (case strip_prefix ''<style'' s of
        None \<Rightarrow> None
      | Some r \<Rightarrow>
          (case dropWhile (\<lambda>c. c \<noteq> CHR ''>'') r of
             [] \<Rightarrow> None
           | _ # body \<Rightarrow> until ''</style>'' body))"

lemma strip_prefix_length: "strip_prefix p s = Some r \<Longrightarrow> length s = length p + length r"
  by (induction p s rule: strip_prefix.induct) (auto split: if_splits)

lemma until_length: "until p s = Some (a, r) \<Longrightarrow> length r \<le> length s"
  by (induction p s arbitrary: a r rule: until.induct)
     (auto split: if_splits option.splits dest: strip_prefix_length)

lemma style_tag_match_length: "style_tag_match s = Some (g, r) \<Longrightarrow> length r < length s"
proof -
  assume m: "style_tag_match s = Some (g, r)"
  then obtain r1 where r1: "strip_prefix ''<style'' s = Some r1"
    by (auto simp: style_tag_match_def split: option.splits)
  with m obtain x body where b: "dropWhile (\<lambda>c. c \<noteq> CHR ''>'') r1 = x # body"
    and u: "until ''</style>'' body = Some (g, r)"
    by (auto simp: style_tag_match_def split: list.splits)
  have "length r \<le> length body" using u by (rule until_length)
  moreover have "length (x # body) \<le> length r1"
    using length_dropWhile_le [of "\<lambda>c. c \<noteq> CHR ''>''" r1] b by simp
  moreover have "length r1 \<le> length s" using strip_prefix_length [OF r1] by simp
  ultimately show ?thesis by simp
qed

text \<open>
  The loop of extractStyleTags: the global pattern is tried at each position from
  the end of the previous match on; each group is appended with a line feed.
\<close>

function extractStyleTags :: "string \<Rightarrow> string" where
  "extractStyleTags [] = []"
| "extractStyleTags (c # cs) =
     (case style_tag_match (c # cs) of
        Some (g, rest) \<Rightarrow> g @ ''\<newline>'' @ extractStyleTags rest
      | None \<Rightarrow> extractStyleTags cs)"
  by pat_completeness auto
termination
  by (relation "measure length") (auto dest: style_tag_match_length)

text \<open>
  Line 14 of the source: the embedded text and the external text (the empty string
  when it is absent), those of the two that are not blank, joined by a line feed.
\<close>

definition allCss :: "string \<Rightarrow> string option \<Rightarrow> string" where
  "allCss html css =
     join ''\<newline>''
       (filter (\<lambda>s. trim s \<noteq> [])
          [extractStyleTags html, (case css of None \<Rightarrow> [] | Some c \<Rightarrow> c)])"

subsection \<open>The declaration object of a rule\<close>

text \<open>
  The declarations of a rule are an object of the source language, modelled as the
  list of its own properties in creation order.  Assigning to an existing key replaces
  its value in place, assigning to a new key appends it, and assigning a string to the
  key \<open>__proto__\<close> of an object literal has no effect.
\<close>

type_synonym js_object = "(string \<times> string) list"

fun obj_put :: "string \<Rightarrow> string \<Rightarrow> js_object \<Rightarrow> js_object" where
  "obj_put k v [] = [(k, v)]"
| "obj_put k v ((k', v') # kvs) =
     (if k' = k then (k, v) # kvs else (k', v') # obj_put k v kvs)"

definition obj_assign :: "string \<Rightarrow> string \<Rightarrow> js_object \<Rightarrow> js_object" where
  "obj_assign k v obj = (if k = ''__proto__'' then obj else obj_put k v obj)"

text \<open>
  The entries of an object are enumerated with the array-index keys (canonical
  decimal numerals below \<open>2^32 - 1\<close>) first, in ascending numeric order, then the other
  keys in creation order.
\<close>

definition is_digit :: "char \<Rightarrow> bool" where
  "is_digit c = (48 \<le> (of_char c :: int) \<and> (of_char c :: int) \<le> 57)"

definition int_of_digits :: "string \<Rightarrow> int" where
  "int_of_digits k = foldl (\<lambda>n c. 10 * n + ((of_char c :: int) - 48)) 0 k"

definition is_array_index :: "string \<Rightarrow> bool" where
  "is_array_index k =
     (k \<noteq> [] \<and> list_all is_digit k \<and> (k = ''0'' \<or> take 1 k \<noteq> ''0'')
      \<and> int_of_digits k < 4294967295)"

definition object_entries :: "js_object \<Rightarrow> (string \<times> string) list" where
  "object_entries obj =
     sort_key (\<lambda>kv. int_of_digits (fst kv)) (filter (\<lambda>kv. is_array_index (fst kv)) obj)
     @ filter (\<lambda>kv. \<not> is_array_index (fst kv)) obj"

subsection \<open>The rule parser\<close>

text \<open>
  One round of the loop of parseCss over the pieces of a block between semicolons:
  split at every colon, trim, and keep the first two pieces when neither is empty.
\<close>

definition parseCss_decl :: "string \<Rightarrow> js_object \<Rightarrow> js_object" where
  "parseCss_decl decl obj =
     (case map trim (split_on (CHR '':'') decl) of
        key # val # _ \<Rightarrow> if key \<noteq> [] \<and> val \<noteq> [] then obj_assign key val obj else obj
      | _ \<Rightarrow> obj)"

definition declarations :: "string \<Rightarrow> js_object" where
  "declarations body = fold parseCss_decl (split_on (CHR '';'') body) []"

definition is_brace :: "char \<Rightarrow> bool" where
  "is_brace c = (c = CHR 0x7B \<or> c = CHR 0x7D)"

text \<open>
  A match of the rule pattern (a group of one or more non-brace characters, white
  space, an opening brace, white space, a group of one or more characters other than
  the closing brace, white space, a closing brace) at the start of \<open>s\<close>.

  The first group is greedy and takes every character up to the first brace, which has
  to be the opening one; giving characters back cannot make another character the
  brace.  The second group cannot cross a closing brace, so the match ends at the
  first closing brace after the opening one.  The white space before the second group
  is greedy, so the group is the text between the braces without its leading white
  space; when that text is white space only, backtracking leaves its last character to
  the group; when it is empty there is no match.  The result is the two groups and
  the text after the match.
\<close>

definition rule_match :: "string \<Rightarrow> (string \<times> string \<times> string) option" where
  "rule_match s =
     (let sel = takeWhile (\<lambda>c. \<not> is_brace c) s;
          r = dropWhile (\<lambda>c. \<not> is_brace c) s
      in if sel = [] then None
         else (case r of
                 [] \<Rightarrow> None
               | b # r' \<Rightarrow>
                   if b \<noteq> CHR 0x7B then None
                   else (let w = takeWhile (\<lambda>c. c \<noteq> CHR 0x7D) r';
                             r'' = dropWhile (\<lambda>c. c \<noteq> CHR 0x7D) r'
                         in (case r'' of
                               [] \<Rightarrow> None
                             | _ # rest \<Rightarrow>
                                 if w = [] then None
                                 else Some (sel,
                                        (if dropWhile is_space w = [] then [last w]
                                         else dropWhile is_space w),
                                        rest)))))"

lemma rule_match_length: "rule_match s = Some (g1, g2, r) \<Longrightarrow> length r < length s"
proof -
  assume m: "rule_match s = Some (g1, g2, r)"
  then obtain b r' where r': "dropWhile (\<lambda>c. \<not> is_brace c) s = b # r'"
    by (auto simp: rule_match_def Let_def split: if_splits list.splits)
  with m obtain x where r'': "dropWhile (\<lambda>c. c \<noteq> CHR 0x7D) r' = x # r"
    by (auto simp: rule_match_def Let_def split: if_splits list.splits)
  have "length (x # r) \<le> length r'"
    using length_dropWhile_le [of "\<lambda>c. c \<noteq> CHR 0x7D" r'] r'' by simp
  moreover have "length (b # r') \<le> length s"
    using length_dropWhile_le [of "\<lambda>c. \<not> is_brace c" s] r' by simp
  ultimately show ?thesis by simp
qed

text \<open>
  The loop of parseCss: the global pattern is tried at each position from the end
  of the previous match on.  A rule is the trimmed first group with the declaration
  object of the second group.
\<close>

type_synonym css_rule = "string \<times> js_object"

function parseCss :: "string \<Rightarrow> css_rule list" where
  "parseCss [] = []"
| "parseCss (c # cs) =
     (case rule_match (c # cs) of
        Some (g1, g2, rest) \<Rightarrow> (trim g1, declarations g2) # parseCss rest
      | None \<Rightarrow> parseCss cs)"
  by pat_completeness auto
termination
  by (relation "measure length") (auto dest: rule_match_length)

section \<open>The cascade: matchesSelector, applyCssRules, getUserAgentStyles, createNode\<close>

text \<open>The static field of the class, the only state that outlives a call.\<close>

record static =
  cssRules :: "css_rule list"

definition matchesSelector :: "string \<Rightarrow> string \<Rightarrow> string list \<Rightarrow> string option \<Rightarrow> bool" where
  "matchesSelector selector tagName classNames ident =
     (case trim selector of
        [] \<Rightarrow> tagName = []
      | c # name \<Rightarrow>
          if c = CHR ''.'' then name \<in> set classNames
          else if c = CHR ''#'' then ident = Some name
          else c # name = tagName)"

text \<open>
  The declarations of a matching rule are written back to text, one
  \<open>key: value\<close> per entry and joined by semicolons, and read by parseStyles.
\<close>

definition declarationStyles :: "js_object \<Rightarrow> styles" where
  "declarationStyles decls =
     parseStyles (Some (join '';'' (map (\<lambda>kv. fst kv @ '': '' @ snd kv) (object_entries decls))))"

definition applyCssRules :: "static \<Rightarrow> string \<Rightarrow> string list \<Rightarrow> string option \<Rightarrow> styles" where
  "applyCssRules s tagName classNames ident =
     fold (\<lambda>r appliedStyles.
             if matchesSelector (fst r) tagName classNames ident
             then appliedStyles ++ declarationStyles (snd r)
             else appliedStyles)
          (cssRules s) Map.empty"

definition getUserAgentStyles :: "string \<Rightarrow> styles" where
  "getUserAgentStyles tagName =
     (let s = [fontSize \<mapsto> Number 12, fontFamily \<mapsto> Str ''body'',
               fontWeight \<mapsto> Str ''normal'', color \<mapsto> Str ''#000000'',
               textAlign \<mapsto> Str ''left'', marginTop \<mapsto> Number 0,
               marginBottom \<mapsto> Number 0]
      in if tagName = ''h1''
           then s(fontSize \<mapsto> Number 24, fontWeight \<mapsto> Str ''bold'', marginBottom \<mapsto> Number 10)
         else if tagName = ''h2''
           then s(fontSize \<mapsto> Number 20, fontWeight \<mapsto> Str ''bold'', marginBottom \<mapsto> Number 10)
         else if tagName = ''h3''
           then s(fontSize \<mapsto> Number 18, fontWeight \<mapsto> Str ''bold'', marginBottom \<mapsto> Number 8)
         else if tagName = ''p'' then s(marginBottom \<mapsto> Number 10)
         else s)"

text \<open>
  The class list of an element: the class attribute split at spaces, or the empty
  list when there is no such attribute.
\<close>

definition classNames_of :: "attribs \<Rightarrow> string list" where
  "classNames_of a = (case map_of a ''class'' of None \<Rightarrow> [] | Some c \<Rightarrow> split_on (CHR '' '') c)"

text \<open>Lines 79 to 88 of createNode: the three layers and their merge.\<close>

definition baseStyles :: "string \<Rightarrow> styles" where
  "baseStyles tagName = getUserAgentStyles tagName"

definition cssStyles :: "static \<Rightarrow> string \<Rightarrow> attribs \<Rightarrow> styles" where
  "cssStyles s tagName a = applyCssRules s tagName (classNames_of a) (map_of a ''id'')"

definition inlineStyles :: "attribs \<Rightarrow> styles" where
  "inlineStyles a = parseStyles (map_of a ''style'')"

definition finalStyles :: "static \<Rightarrow> string \<Rightarrow> attribs \<Rightarrow> styles" where
  "finalStyles s tagName a = baseStyles tagName ++ cssStyles s tagName a ++ inlineStyles a"

text \<open>An attribute that is present and not the empty string.\<close>

definition truthy :: "attribs \<Rightarrow> string \<Rightarrow> string option" where
  "truthy a k = (case map_of a k of None \<Rightarrow> None | Some v \<Rightarrow> if v = [] then None else Some v)"

definition set_opt :: "style_prop \<Rightarrow> style_value option \<Rightarrow> styles \<Rightarrow> styles" where
  "set_opt p v st = (case v of None \<Rightarrow> st | Some x \<Rightarrow> st(p \<mapsto> x))"

definition createNode :: "static \<Rightarrow> string \<Rightarrow> attribs \<Rightarrow> RenderNode option" where
  "createNode s tagName a =
     (let fs = finalStyles s tagName a
      in if tagName = ''br'' then Some (RenderNode T_break None None fs None)
         else if tagName = ''img'' then Some (RenderNode T_image None (map_of a ''src'') fs None)
         else if tagName = ''table''
           then Some (RenderNode T_table None None
                  (set_opt padding (map_option ParseFloat (truthy a ''cellpadding''))
                     (set_opt width (map_option Str (truthy a ''width'')) fs))
                  (Some []))
         else if tagName = ''thead'' \<or> tagName = ''tbody''
           then Some (RenderNode T_block None None fs (Some []))
         else if tagName = ''tr'' then Some (RenderNode T_row None None fs (Some []))
         else if tagName = ''td'' \<or> tagName = ''th''
           then Some (RenderNode T_cell None None
                  (set_opt width (map_option Str (truthy a ''width''))
                     (set_opt textAlign (map_option Str (truthy a ''align'')) fs))
                  (Some []))
         else if tagName \<in> set [''h1'', ''h2'', ''h3'', ''h4'', ''h5'', ''h6'', ''p'', ''div'']
           then Some (RenderNode T_block None None fs (Some []))
         else if tagName \<in> set [''span'', ''strong'', ''b'', ''em'', ''i'']
           then Some (RenderNode T_block None None
                  (if tagName = ''strong'' \<or> tagName = ''b''
                   then fs(fontWeight \<mapsto> Str ''bold'') else fs)
                  (Some []))
         else None)"

definition isVoidElement :: "string \<Rightarrow> bool" where
  "isVoidElement tagName = (tagName \<in> set [''img'', ''br'', ''hr'', ''input''])"

section \<open>The tree builder: the handlers of parse\<close>

text \<open>
  The events that the tokenizer delivers to the three handlers.  The tokenizer is an
  external library and is a parameter of \<open>parse\<close> below.
\<close>

datatype event = onopentag string attribs | ontext string | onclosetag string

text \<open>
  The source attaches a node to its parent and then pushes the same object on the
  stack, so a later push into the children of the stack top changes the tree.  Here
  the tree is a value, and an entry of the stack is the path of its node in the root
  sequence: the index of a root, then child indices.  Children are only ever appended,
  so a path keeps denoting the same node.
\<close>

type_synonym path = "nat list"

fun node_at :: "RenderNode list \<Rightarrow> path \<Rightarrow> RenderNode option" where
  "node_at ns [] = None"
| "node_at ns (i # p) =
     (if i < length ns
      then (if p = [] then Some (ns ! i)
            else (case n_children (ns ! i) of
                    None \<Rightarrow> None
                  | Some cs \<Rightarrow> node_at cs p))
      else None)"

definition set_children :: "RenderNode \<Rightarrow> RenderNode list \<Rightarrow> RenderNode" where
  "set_children n cs = RenderNode (n_type n) (n_text n) (n_src n) (n_styles n) (Some cs)"

text \<open>
  The two statements that append a child: the children sequence is created when the
  parent has none, then the node is pushed at its end.
\<close>

definition children_of :: "RenderNode \<Rightarrow> RenderNode list" where
  "children_of n = (case n_children n of None \<Rightarrow> [] | Some cs \<Rightarrow> cs)"

definition push_child :: "RenderNode \<Rightarrow> RenderNode \<Rightarrow> RenderNode" where
  "push_child node parent = set_children parent (children_of parent @ [node])"

fun update_at :: "RenderNode list \<Rightarrow> path \<Rightarrow> (RenderNode \<Rightarrow> RenderNode) \<Rightarrow> RenderNode list option" where
  "update_at ns [] f = None"
| "update_at ns (i # p) f =
     (if i < length ns
      then (if p = [] then Some (ns[i := f (ns ! i)])
            else (case n_children (ns ! i) of
                    None \<Rightarrow> None
                  | Some cs \<Rightarrow>
                      (case update_at cs p f of
                         None \<Rightarrow> None
                       | Some cs' \<Rightarrow> Some (ns[i := set_children (ns ! i) cs']))))
      else None)"

text \<open>
  The state of one call: the root sequence and the stack of open elements, its top
  first.  A path that denotes no node has no counterpart in the source, where the
  stack holds the objects themselves; the model reports it as an error, and
  \<open>run_total\<close> below shows that it never arises.
\<close>

record builder =
  rootNodes :: "RenderNode list"
  stack :: "path list"

datatype error = DanglingPath

text \<open>
  Appending a node to the children of the element that a stack entry denotes.  The
  result is the new root sequence and the path of the appended node.
\<close>

definition attach :: "RenderNode list \<Rightarrow> path \<Rightarrow> RenderNode \<Rightarrow> error + (RenderNode list \<times> path)" where
  "attach roots parent node =
     (case node_at roots parent of
        None \<Rightarrow> Inl DanglingPath
      | Some pn \<Rightarrow>
          (case update_at roots parent (push_child node) of
             None \<Rightarrow> Inl DanglingPath
           | Some roots' \<Rightarrow> Inr (roots', parent @ [length (children_of pn)])))"

definition onopentag_h :: "static \<Rightarrow> string \<Rightarrow> attribs \<Rightarrow> builder \<Rightarrow> error + builder" where
  "onopentag_h s name a b =
     (if name = ''style'' then Inr b
      else (case createNode s name a of
              None \<Rightarrow> Inr b
            | Some node \<Rightarrow>
                (case (case stack b of
                         [] \<Rightarrow> Inr (rootNodes b @ [node], [length (rootNodes b)])
                       | parent # below \<Rightarrow> attach (rootNodes b) parent node) of
                   Inl err \<Rightarrow> Inl err
                 | Inr (roots', p) \<Rightarrow>
                     Inr (b\<lparr>rootNodes := roots',
                            stack := (if \<not> isVoidElement name then p # stack b
                                      else stack b)\<rparr>))))"

definition ontext_h :: "string \<Rightarrow> builder \<Rightarrow> error + builder" where
  "ontext_h t b =
     (case stack b of
        [] \<Rightarrow> Inr b
      | parent # below \<Rightarrow>
          if trim (cleanText t) \<noteq> []
          then (case node_at (rootNodes b) parent of
                  None \<Rightarrow> Inl DanglingPath
                | Some pn \<Rightarrow>
                    (case attach (rootNodes b) parent
                            (RenderNode T_text (Some (cleanText t)) None (n_styles pn) None) of
                       Inl err \<Rightarrow> Inl err
                     | Inr (roots', p) \<Rightarrow> Inr (b\<lparr>rootNodes := roots'\<rparr>)))
          else Inr b)"

text \<open>Popping the empty stack returns undefined and leaves it empty.\<close>

definition onclosetag_h :: "string \<Rightarrow> builder \<Rightarrow> error + builder" where
  "onclosetag_h name b =
     (if \<not> isVoidElement name \<and> name \<noteq> ''style''
      then Inr (b\<lparr>stack := (case stack b of [] \<Rightarrow> [] | parent # below \<Rightarrow> below)\<rparr>)
      else Inr b)"

fun step :: "static \<Rightarrow> event \<Rightarrow> builder \<Rightarrow> error + builder" where
  "step s (onopentag name a) b = onopentag_h s name a b"
| "step s (ontext t) b = ontext_h t b"
| "step s (onclosetag name) b = onclosetag_h name b"

fun run :: "static \<Rightarrow> event list \<Rightarrow> builder \<Rightarrow> error + builder" where
  "run s [] b = Inr b"
| "run s (e # es) b = (case step s e b of Inl err \<Rightarrow> Inl err | Inr b' \<Rightarrow> run s es b')"

text \<open>
  The entry point.  The static rule list is assigned from the arguments before the
  tokenizer runs; the result is the root sequence at the end of the events, together
  with the static field as the call leaves it.
\<close>

definition parse ::
  "(string \<Rightarrow> event list) \<Rightarrow> string \<Rightarrow> string option \<Rightarrow> static
     \<Rightarrow> (error + RenderNode list) \<times> static" where
  "parse tokenizer html css s0 =
     (let s1 = s0\<lparr>cssRules := parseCss (allCss html css)\<rparr>
      in (case run s1 (tokenizer html) \<lparr>rootNodes = [], stack = []\<rparr> of
            Inl err \<Rightarrow> Inl err
          | Inr b \<Rightarrow> Inr (rootNodes b),
          s1))"

section \<open>White-space collapsing\<close>

text \<open>
  A string is collapsed when each of its white-space characters is a space that is
  not followed by another white-space character.
\<close>

fun collapsed :: "string \<Rightarrow> bool" where
  "collapsed [] = True"
| "collapsed [c] = (is_space c \<longrightarrow> c = CHR 0x20)"
| "collapsed (c # d # cs) =
     ((is_space c \<longrightarrow> c = CHR 0x20 \<and> \<not> is_space d) \<and> collapsed (d # cs))"

section \<open>Predicates on the builder state\<close>

text \<open>The node kinds that are created without a children sequence.\<close>

definition is_void_kind :: "RenderNode \<Rightarrow> bool" where
  "is_void_kind n = (n_type n = T_break \<or> n_type n = T_image)"


text \<open>
  In a tree, every node that has a children sequence is neither a break nor an image,
  and so are its descendants.
\<close>

fun void_ok :: "RenderNode \<Rightarrow> bool" where
  "void_ok (RenderNode t tx sr st cs) =
     (case cs of None \<Rightarrow> True | Some l \<Rightarrow> t \<noteq> T_break \<and> t \<noteq> T_image \<and> list_all void_ok l)"

text \<open>Every entry of the stack denotes a node that is neither a break nor an image.\<close>

definition stack_ok :: "builder \<Rightarrow> bool" where
  "stack_ok b = list_all (\<lambda>p. case node_at (rootNodes b) p of
                                None \<Rightarrow> False
                              | Some n \<Rightarrow> \<not> is_void_kind n) (stack b)"

definition builder_inv :: "builder \<Rightarrow> bool" where
  "builder_inv b = (list_all void_ok (rootNodes b) \<and> stack_ok b)"


text \<open>The events that open an element.\<close>

fun is_open :: "event \<Rightarrow> bool" where
  "is_open (onopentag name a) = True"
| "is_open (ontext t) = False"
| "is_open (onclosetag name) = False"

section \<open>A predicate on style text\<close>

text \<open>The text ends, white space apart, with a closing brace.\<close>

definition ends_with_brace :: "string \<Rightarrow> bool" where
  "ends_with_brace e = (case dropWhile is_space (rev e) of [] \<Rightarrow> False | c # _ \<Rightarrow> c = CHR 0x7D)"

section \<open>White-space collapsing is idempotent\<close>

lemma is_nrt_space: "is_nrt c \<Longrightarrow> is_space c"
  by (auto simp: is_nrt_def is_space_def)

lemma is_nrt_not_blank: "is_nrt c \<Longrightarrow> c \<noteq> CHR 0x20"
  by (auto simp: is_nrt_def)

lemma dropWhile_hd: "dropWhile P s = d # t \<Longrightarrow> \<not> P d"
  by (metis hd_dropWhile list.discI list.sel(1))

lemma collapsed_replace_runs: "collapsed (replace_runs is_space s)"
proof (induction is_space s rule: replace_runs.induct)
  case 1
  show ?case by simp
next
  case (2 c cs)
  show ?case
  proof (cases "is_space c")
    case True
    let ?r = "replace_runs is_space (dropWhile is_space cs)"
    have ih: "collapsed ?r" using 2(1) True by simp
    show ?thesis
    proof (cases ?r)
      case Nil
      with True show ?thesis by simp
    next
      case (Cons d ds)
      have "\<not> is_space d"
      proof (cases "dropWhile is_space cs")
        case Nil
        with Cons show ?thesis by simp
      next
        case (Cons e es)
        then have ne: "\<not> is_space e" by (rule dropWhile_hd)
        with Cons \<open>?r = d # ds\<close> show ?thesis by simp
      qed
      with ih Cons True show ?thesis by simp
    qed
  next
    case False
    let ?r = "replace_runs is_space cs"
    have ih: "collapsed ?r" using 2(2) False by simp
    show ?thesis
    proof (cases ?r)
      case Nil
      with False show ?thesis by simp
    next
      case (Cons d ds)
      with ih False show ?thesis by simp
    qed
  qed
qed

lemma collapsed_spaces: "collapsed s \<Longrightarrow> c \<in> set s \<Longrightarrow> is_space c \<Longrightarrow> c = CHR 0x20"
  by (induction s rule: collapsed.induct) auto

lemma replace_runs_none: "(\<And>c. c \<in> set s \<Longrightarrow> \<not> P c) \<Longrightarrow> replace_runs P s = s"
  by (induction s) auto

lemma replace_nrt_collapsed: "collapsed s \<Longrightarrow> replace_runs is_nrt s = s"
  by (rule replace_runs_none) (metis collapsed_spaces is_nrt_space is_nrt_not_blank)

lemma replace_space_collapsed: "collapsed s \<Longrightarrow> replace_runs is_space s = s"
  by (induction s rule: collapsed.induct) auto

text \<open>
  C7. Collapsing the white space of a text event is idempotent: applying the two
  replacements of the text handler to an already collapsed text gives the same text.
\<close>

theorem cleanText_idempotent: "cleanText (cleanText s) = cleanText s"
  unfolding cleanText_def
  by (simp add: collapsed_replace_runs replace_nrt_collapsed replace_space_collapsed)

theorem cleanText_idempotent_witness:
  "cleanText (cleanText (CHR ''a'' # CHR 0x0A # CHR 0x09 # '' b'')) = ''a b''"
  using cleanText_idempotent [of "CHR ''a'' # CHR 0x0A # CHR 0x09 # '' b''"]
  by (simp add: cleanText_def is_space_def is_nrt_def)

section \<open>The builder keeps its stack sound\<close>


lemma void_ok_set_children:
  "\<not> is_void_kind n \<Longrightarrow> list_all void_ok cs \<Longrightarrow> void_ok (set_children n cs)"
  by (cases n) (simp add: set_children_def is_void_kind_def)

lemma void_ok_children: "void_ok n \<Longrightarrow> n_children n = Some cs \<Longrightarrow> list_all void_ok cs \<and> \<not> is_void_kind n"
  by (cases n) (simp add: is_void_kind_def)

lemma void_ok_push_child:
  "void_ok parent \<Longrightarrow> \<not> is_void_kind parent \<Longrightarrow> void_ok node \<Longrightarrow> void_ok (push_child node parent)"
  by (cases parent) (auto simp: push_child_def children_of_def set_children_def is_void_kind_def split: option.splits)

lemma update_at_void_ok:
  "list_all void_ok ns \<Longrightarrow> node_at ns p = Some n \<Longrightarrow> void_ok (f n)
     \<Longrightarrow> update_at ns p f = Some ns' \<Longrightarrow> list_all void_ok ns'"
proof (induction ns p f arbitrary: ns' rule: update_at.induct)
  case (1 ns f)
  then show ?case by simp
next
  case (2 ns i p f)
  show ?case
  proof (cases "p = []")
    case True
    with 2 show ?thesis
      by (auto simp: list_all_length nth_list_update split: if_splits)
  next
    case False
    from 2(3) False obtain cs where lt: "i < length ns" and cs: "n_children (ns ! i) = Some cs"
      and at: "node_at cs p = Some n"
      by (auto split: if_splits option.splits)
    from 2(5) False lt cs obtain cs' where up: "update_at cs p f = Some cs'"
      and ns': "ns' = ns[i := set_children (ns ! i) cs']"
      by (auto split: option.splits)
    have oki: "void_ok (ns ! i)" using 2(2) lt by (simp add: list_all_length)
    then have "list_all void_ok cs" and nv: "\<not> is_void_kind (ns ! i)"
      using void_ok_children [OF oki cs] by simp_all
    then have "list_all void_ok cs'" using 2(1) [OF lt False cs _ at 2(4) up] by simp
    then have "void_ok (set_children (ns ! i) cs')" using nv by (rule void_ok_set_children [rotated])
    with 2(2) ns' lt show ?thesis by (auto simp: list_all_length nth_list_update)
  qed
qed

lemma update_at_defined: "node_at ns p = Some n \<Longrightarrow> \<exists>ns'. update_at ns p f = Some ns'"
proof (induction ns p arbitrary: n rule: node_at.induct)
  case (1 ns)
  then show ?case by simp
next
  case (2 ns i p)
  then show ?case by (fastforce split: if_splits option.splits)
qed

lemma node_at_append: "node_at cs q = Some m \<Longrightarrow> node_at (cs @ ys) q = Some m"
  by (cases q) (auto simp: nth_append split: if_splits)

lemma update_at_keeps:
  "update_at ns p (push_child x) = Some ns' \<Longrightarrow> node_at ns q = Some m
     \<Longrightarrow> \<exists>m'. node_at ns' q = Some m' \<and> n_type m' = n_type m"
proof (induction ns p "push_child x" arbitrary: ns' q m rule: update_at.induct)
  case (1 ns)
  then show ?case by simp
next
  case (2 ns i p)
  from 2(2) have lt: "i < length ns" by (auto split: if_splits)
  from 2(3) obtain k q' where q: "q = k # q'" by (cases q) auto
  show ?case
  proof (cases "p = []")
    case True
    with 2(2) lt have ns': "ns' = ns[i := push_child x (ns ! i)]" by simp
    show ?thesis
    proof (cases "k = i")
      case False
      with 2(3) q ns' show ?thesis by (auto split: if_splits)
    next
      case True
      show ?thesis
      proof (cases "q' = []")
        case True
        with 2(3) q \<open>k = i\<close> ns' lt show ?thesis
          by (auto simp: push_child_def set_children_def)
      next
        case False
        with 2(3) q \<open>k = i\<close> lt obtain cs where cs: "n_children (ns ! i) = Some cs"
          and at: "node_at cs q' = Some m"
          by (auto split: option.splits)
        have "node_at (cs @ [x]) q' = Some m" using at by (rule node_at_append)
        with False q \<open>k = i\<close> ns' lt cs show ?thesis
          by (auto simp: push_child_def set_children_def children_of_def)
      qed
    qed
  next
    case False
    with 2(2) lt obtain cs cs' where cs: "n_children (ns ! i) = Some cs"
      and up: "update_at cs p (push_child x) = Some cs'"
      and ns': "ns' = ns[i := set_children (ns ! i) cs']"
      by (auto split: option.splits)
    show ?thesis
    proof (cases "k = i")
      case False
      with 2(3) q ns' show ?thesis by (auto split: if_splits)
    next
      case True
      show ?thesis
      proof (cases "q' = []")
        case True
        with 2(3) q \<open>k = i\<close> ns' lt show ?thesis
          by (auto simp: set_children_def)
      next
        case nq: False
        with 2(3) q \<open>k = i\<close> lt cs have at: "node_at cs q' = Some m"
          by auto
        from 2(1) [OF lt False cs up at] obtain m' where "node_at cs' q' = Some m'" "n_type m' = n_type m"
          by blast
        with nq q \<open>k = i\<close> ns' lt show ?thesis
          by (auto simp: set_children_def)
      qed
    qed
  qed
qed

lemma update_at_new:
  "node_at ns p = Some pn \<Longrightarrow> update_at ns p (push_child x) = Some ns'
     \<Longrightarrow> node_at ns' (p @ [length (children_of pn)]) = Some x"
proof (induction ns p "push_child x" arbitrary: ns' rule: update_at.induct)
  case (1 ns)
  then show ?case by simp
next
  case (2 ns i p)
  from 2(3) have lt: "i < length ns" by (auto split: if_splits)
  show ?case
  proof (cases "p = []")
    case True
    with 2 lt show ?thesis
      by (auto simp: push_child_def set_children_def children_of_def nth_append split: option.splits)
  next
    case False
    with 2(3) lt obtain cs cs' where cs: "n_children (ns ! i) = Some cs"
      and up: "update_at cs p (push_child x) = Some cs'"
      and ns': "ns' = ns[i := set_children (ns ! i) cs']"
      by (auto split: option.splits)
    from 2(2) False lt cs have at: "node_at cs p = Some pn" by auto
    from 2(1) [OF lt False cs at up] have "node_at cs' (p @ [length (children_of pn)]) = Some x" .
    with False ns' lt show ?thesis by (auto simp: set_children_def)
  qed
qed


lemma node_at_void_ok: "list_all void_ok ns \<Longrightarrow> node_at ns p = Some n \<Longrightarrow> void_ok n"
proof (induction ns p arbitrary: n rule: node_at.induct)
  case (1 ns)
  then show ?case by simp
next
  case (2 ns i p)
  from 2(3) have lt: "i < length ns" by (auto split: if_splits)
  then have oki: "void_ok (ns ! i)" using 2(2) by (simp add: list_all_length)
  show ?case
  proof (cases "p = []")
    case True
    with 2(3) lt oki show ?thesis by simp
  next
    case False
    with 2(3) lt obtain cs where cs: "n_children (ns ! i) = Some cs" and at: "node_at cs p = Some n"
      by (auto split: option.splits)
    from void_ok_children [OF oki cs] have "list_all void_ok cs" by simp
    from 2(1) [OF lt False cs this at] show ?thesis .
  qed
qed

lemma stack_ok_iff:
  "stack_ok b \<longleftrightarrow> (\<forall>p \<in> set (stack b). \<exists>n. node_at (rootNodes b) p = Some n \<and> \<not> is_void_kind n)"
  by (auto simp: stack_ok_def list_all_iff split: option.splits)

lemma createNode_br:
  "createNode s ''br'' a = Some (RenderNode T_break None None (finalStyles s ''br'' a) None)"
  by (simp add: createNode_def)

lemma createNode_img:
  "createNode s ''img'' a
     = Some (RenderNode T_image None (map_of a ''src'') (finalStyles s ''img'' a) None)"
  by (simp add: createNode_def)

lemma createNode_container:
  assumes c: "createNode s name a = Some node" and nb: "name \<noteq> ''br''" and ni: "name \<noteq> ''img''"
  shows "n_children node = Some [] \<and> n_type node \<noteq> T_break \<and> n_type node \<noteq> T_image"
proof -
  consider (table) "name = ''table''"
    | (sec) "name = ''thead'' \<or> name = ''tbody''" | (tr) "name = ''tr''"
    | (td) "name = ''td'' \<or> name = ''th''"
    | (blk) "name \<in> set [''h1'', ''h2'', ''h3'', ''h4'', ''h5'', ''h6'', ''p'', ''div'']"
    | (span) "name \<in> set [''span'', ''strong'', ''b'', ''em'', ''i'']"
    | (other) "name \<noteq> ''table''"
        "\<not> (name = ''thead'' \<or> name = ''tbody'')" "name \<noteq> ''tr''"
        "\<not> (name = ''td'' \<or> name = ''th'')"
        "name \<notin> set [''h1'', ''h2'', ''h3'', ''h4'', ''h5'', ''h6'', ''p'', ''div'']"
        "name \<notin> set [''span'', ''strong'', ''b'', ''em'', ''i'']"
    by argo
  then show ?thesis
  proof cases
    case table
    with c show ?thesis by (auto simp: createNode_def Let_def)
  next
    case sec
    with c show ?thesis by (auto simp: createNode_def Let_def)
  next
    case tr
    with c show ?thesis by (auto simp: createNode_def Let_def)
  next
    case td
    with c show ?thesis by (auto simp: createNode_def Let_def)
  next
    case blk
    then have "name = ''h1'' \<or> name = ''h2'' \<or> name = ''h3'' \<or> name = ''h4'' \<or> name = ''h5''
       \<or> name = ''h6'' \<or> name = ''p'' \<or> name = ''div''" by simp
    with c show ?thesis by (elim disjE) (simp_all add: createNode_def Let_def, auto)
  next
    case span
    then have "name = ''span'' \<or> name = ''strong'' \<or> name = ''b'' \<or> name = ''em'' \<or> name = ''i''"
      by simp
    with c show ?thesis by (elim disjE) (simp_all add: createNode_def Let_def, auto)
  next
    case other
    with c nb ni show ?thesis by (simp add: createNode_def Let_def)
  qed
qed


lemma createNode_void_ok:
  assumes c: "createNode s name a = Some node"
  shows "void_ok node"
proof (cases "name = ''br'' \<or> name = ''img''")
  case True
  with c show ?thesis by (auto simp: createNode_br createNode_img)
next
  case False
  with c have "n_children node = Some [] \<and> n_type node \<noteq> T_break \<and> n_type node \<noteq> T_image"
    by (simp add: createNode_container)
  then show ?thesis by (cases node) simp
qed

lemma createNode_kind:
  assumes c: "createNode s name a = Some node" and v: "is_void_kind node"
  shows "isVoidElement name"
proof (cases "name = ''br'' \<or> name = ''img''")
  case True
  then show ?thesis by (auto simp: isVoidElement_def)
next
  case False
  with c have "n_type node \<noteq> T_break \<and> n_type node \<noteq> T_image"
    by (simp add: createNode_container)
  with v show ?thesis by (simp add: is_void_kind_def)
qed

lemma attach_ok:
  assumes ok: "list_all void_ok roots" and at: "node_at roots p = Some pn"
    and nv: "\<not> is_void_kind pn" and okn: "void_ok node"
  shows "\<exists>roots'. attach roots p node = Inr (roots', p @ [length (children_of pn)])
           \<and> list_all void_ok roots'
           \<and> node_at roots' (p @ [length (children_of pn)]) = Some node
           \<and> (\<forall>q m. node_at roots q = Some m
                 \<longrightarrow> (\<exists>m'. node_at roots' q = Some m' \<and> n_type m' = n_type m))"
proof -
  from update_at_defined [OF at] obtain roots' where up: "update_at roots p (push_child node) = Some roots'"
    by blast
  have okp: "void_ok pn" using ok at by (rule node_at_void_ok)
  have "void_ok (push_child node pn)" using okp nv okn by (rule void_ok_push_child)
  with ok at have "list_all void_ok roots'" using up by (rule update_at_void_ok)
  moreover have "node_at roots' (p @ [length (children_of pn)]) = Some node"
    using at up by (rule update_at_new)
  moreover have "\<forall>q m. node_at roots q = Some m
                 \<longrightarrow> (\<exists>m'. node_at roots' q = Some m' \<and> n_type m' = n_type m)"
    using update_at_keeps [OF up] by blast
  moreover have "attach roots p node = Inr (roots', p @ [length (children_of pn)])"
    using at up by (simp add: attach_def)
  ultimately show ?thesis by blast
qed

lemma keeps_stack:
  assumes "\<forall>q m. node_at roots q = Some m
                 \<longrightarrow> (\<exists>m'. node_at roots' q = Some m' \<and> n_type m' = n_type m)"
    and "\<forall>p \<in> set st. \<exists>n. node_at roots p = Some n \<and> \<not> is_void_kind n"
  shows "\<forall>p \<in> set st. \<exists>n. node_at roots' p = Some n \<and> \<not> is_void_kind n"
  using assms unfolding is_void_kind_def by metis

lemma onopentag_inv:
  assumes i: "builder_inv b"
  shows "\<exists>b'. onopentag_h s name a b = Inr b' \<and> builder_inv b'"
proof (cases "name = ''style''")
  case True
  with i show ?thesis by (simp add: onopentag_h_def)
next
  case ns: False
  show ?thesis
  proof (cases "createNode s name a")
    case None
    with i ns show ?thesis by (simp add: onopentag_h_def)
  next
    case (Some node)
    have okn: "void_ok node" using Some by (rule createNode_void_ok)
    have ok: "list_all void_ok (rootNodes b)" using i by (simp add: builder_inv_def)
    have st: "\<forall>p \<in> set (stack b). \<exists>n. node_at (rootNodes b) p = Some n \<and> \<not> is_void_kind n"
      using i by (simp add: builder_inv_def stack_ok_iff)
    have nvn: "\<not> isVoidElement name \<Longrightarrow> \<not> is_void_kind node"
      using createNode_kind [OF Some] by blast
    show ?thesis
    proof (cases "stack b")
      case Nil
      let ?b' = "b\<lparr>rootNodes := rootNodes b @ [node],
                   stack := (if \<not> isVoidElement name then [length (rootNodes b)] # stack b
                             else stack b)\<rparr>"
      have eq: "onopentag_h s name a b = Inr ?b'"
        using ns Some Nil by (simp add: onopentag_h_def)
      have "builder_inv ?b'"
        using ok okn nvn Nil by (auto simp: builder_inv_def stack_ok_iff nth_append)
      with eq show ?thesis by blast
    next
      case (Cons parent below)
      with st obtain pn where at: "node_at (rootNodes b) parent = Some pn"
        and nv: "\<not> is_void_kind pn" by auto
      from attach_ok [OF ok at nv okn] obtain roots' where
        att: "attach (rootNodes b) parent node = Inr (roots', parent @ [length (children_of pn)])"
        and ok': "list_all void_ok roots'"
        and new: "node_at roots' (parent @ [length (children_of pn)]) = Some node"
        and keep: "\<forall>q m. node_at (rootNodes b) q = Some m
                 \<longrightarrow> (\<exists>m'. node_at roots' q = Some m' \<and> n_type m' = n_type m)"
        by blast
      let ?b' = "b\<lparr>rootNodes := roots',
                   stack := (if \<not> isVoidElement name
                             then (parent @ [length (children_of pn)]) # stack b
                             else stack b)\<rparr>"
      have eq: "onopentag_h s name a b = Inr ?b'"
        using ns Some Cons att by (simp add: onopentag_h_def)
      have st': "\<forall>p \<in> set (stack b). \<exists>n. node_at roots' p = Some n \<and> \<not> is_void_kind n"
        using keep st by (rule keeps_stack)
      have "builder_inv ?b'"
        using ok' st' new nvn by (auto simp: builder_inv_def stack_ok_iff)
      with eq show ?thesis by blast
    qed
  qed
qed

lemma ontext_inv:
  assumes i: "builder_inv b"
  shows "\<exists>b'. ontext_h t b = Inr b' \<and> builder_inv b'"
proof (cases "stack b")
  case Nil
  with i show ?thesis by (simp add: ontext_h_def)
next
  case (Cons parent below)
  have ok: "list_all void_ok (rootNodes b)" using i by (simp add: builder_inv_def)
  have st: "\<forall>p \<in> set (stack b). \<exists>n. node_at (rootNodes b) p = Some n \<and> \<not> is_void_kind n"
    using i by (simp add: builder_inv_def stack_ok_iff)
  with Cons obtain pn where at: "node_at (rootNodes b) parent = Some pn"
    and nv: "\<not> is_void_kind pn" by auto
  show ?thesis
  proof (cases "trim (cleanText t) \<noteq> []")
    case False
    with i Cons show ?thesis by (simp add: ontext_h_def)
  next
    case True
    let ?n = "RenderNode T_text (Some (cleanText t)) None (n_styles pn) None"
    have okn: "void_ok ?n" by simp
    from attach_ok [OF ok at nv okn] obtain roots' where
      att: "attach (rootNodes b) parent ?n = Inr (roots', parent @ [length (children_of pn)])"
      and ok': "list_all void_ok roots'"
      and keep: "\<forall>q m. node_at (rootNodes b) q = Some m
               \<longrightarrow> (\<exists>m'. node_at roots' q = Some m' \<and> n_type m' = n_type m)"
      by blast
    have eq: "ontext_h t b = Inr (b\<lparr>rootNodes := roots'\<rparr>)"
      using True Cons at att by (simp add: ontext_h_def)
    have st': "\<forall>p \<in> set (stack b). \<exists>n. node_at roots' p = Some n \<and> \<not> is_void_kind n"
      using keep st by (rule keeps_stack)
    have "builder_inv (b\<lparr>rootNodes := roots'\<rparr>)"
      using ok' st' by (simp add: builder_inv_def stack_ok_iff)
    with eq show ?thesis by blast
  qed
qed

lemma onclosetag_inv:
  assumes i: "builder_inv b"
  shows "\<exists>b'. onclosetag_h name b = Inr b' \<and> builder_inv b'"
  using i by (cases "stack b") (auto simp: onclosetag_h_def builder_inv_def stack_ok_iff)

lemma step_inv: "builder_inv b \<Longrightarrow> \<exists>b'. step s e b = Inr b' \<and> builder_inv b'"
  by (cases e) (simp_all add: onopentag_inv ontext_inv onclosetag_inv)

lemma run_inv: "builder_inv b \<Longrightarrow> \<exists>b'. run s es b = Inr b' \<and> builder_inv b'"
proof (induction es arbitrary: b)
  case Nil
  then show ?case by simp
next
  case (Cons e es)
  from step_inv [OF Cons.prems] obtain b1 where s1: "step s e b = Inr b1" and i1: "builder_inv b1"
    by blast
  from Cons.IH [OF i1] obtain b' where "run s es b1 = Inr b'" "builder_inv b'" by blast
  with s1 show ?case by simp
qed

lemma builder_inv_init: "builder_inv \<lparr>rootNodes = [], stack = []\<rparr>"
  by (simp add: builder_inv_def stack_ok_def)

lemma run_total: "\<exists>b. run s es \<lparr>rootNodes = [], stack = []\<rparr> = Inr b \<and> builder_inv b"
  using builder_inv_init by (rule run_inv)

section \<open>Properties of the tree builder\<close>


lemma run_no_open:
  "stack b = [] \<Longrightarrow> \<forall>e \<in> set es. \<not> is_open e \<Longrightarrow> run s es b = Inr b"
proof (induction es)
  case Nil
  show ?case by simp
next
  case (Cons e es)
  from Cons.prems have "step s e b = Inr b"
    by (cases e) (simp_all add: ontext_h_def onclosetag_h_def)
  with Cons show ?case by simp
qed

text \<open>
  C9. A close event that arrives while the stack is empty leaves the builder state
  (stack and root sequence) as it is and raises nothing, whatever its tag; and the
  builder returns a state for every sequence of events.
\<close>

theorem excess_close_no_effect:
  "(stack b = [] \<longrightarrow> step s (onclosetag name) b = Inr b)
     \<and> (\<exists>b'. run s evs \<lparr>rootNodes = [], stack = []\<rparr> = Inr b')"
proof -
  have "stack b = [] \<longrightarrow> step s (onclosetag name) b = Inr b"
    by (simp add: onclosetag_h_def)
  moreover have "\<exists>b'. run s evs \<lparr>rootNodes = [], stack = []\<rparr> = Inr b'"
    using run_total [of s evs] by blast
  ultimately show ?thesis by (rule conjI)
qed


theorem excess_close_no_effect_witness:
  "step \<lparr>cssRules = []\<rparr> (onclosetag ''div'') \<lparr>rootNodes = [], stack = []\<rparr>
     = Inr \<lparr>rootNodes = [], stack = []\<rparr>
   \<and> (\<exists>b'. run \<lparr>cssRules = []\<rparr>
               [onclosetag ''div'', onopentag ''p'' [], onclosetag ''p'', onclosetag ''p'',
                onclosetag ''div'']
               \<lparr>rootNodes = [], stack = []\<rparr> = Inr b')"
proof -
  note t = excess_close_no_effect [of "\<lparr>rootNodes = [], stack = []\<rparr>" "\<lparr>cssRules = []\<rparr>" "''div''"
      "[onclosetag ''div'', onopentag ''p'' [], onclosetag ''p'', onclosetag ''p'',
        onclosetag ''div'']"]
  have e: "stack \<lparr>rootNodes = [], stack = []\<rparr> = []" by simp
  from t have "stack \<lparr>rootNodes = [], stack = []\<rparr> = []
      \<longrightarrow> step \<lparr>cssRules = []\<rparr> (onclosetag ''div'') \<lparr>rootNodes = [], stack = []\<rparr>
     = Inr \<lparr>rootNodes = [], stack = []\<rparr>"
    by (rule conjunct1)
  from this e have "step \<lparr>cssRules = []\<rparr> (onclosetag ''div'') \<lparr>rootNodes = [], stack = []\<rparr>
     = Inr \<lparr>rootNodes = [], stack = []\<rparr>"
    by (rule mp)
  moreover from t have "\<exists>b'. run \<lparr>cssRules = []\<rparr>
               [onclosetag ''div'', onopentag ''p'' [], onclosetag ''p'', onclosetag ''p'',
                onclosetag ''div'']
               \<lparr>rootNodes = [], stack = []\<rparr> = Inr b'"
    by (rule conjunct2)
  ultimately show ?thesis by (rule conjI)
qed

text \<open>
  C8. Whatever the markup, the style text and the events of the tokenizer are, a
  call returns a node sequence and no error; and when the tokenizer delivers no open
  event (in particular no event at all, as for empty input, or text only, as for input
  without markup) the sequence returned is empty.
\<close>

theorem parse_returns_nodes:
  "(\<exists>ns. fst (parse tokenizer html css s0) = Inr ns)
     \<and> ((\<forall>e \<in> set (tokenizer html). \<not> is_open e)
           \<longrightarrow> fst (parse tokenizer html css s0) = Inr [])"
proof (rule conjI)
  let ?s1 = "s0\<lparr>cssRules := parseCss (allCss html css)\<rparr>"
  from run_total [of ?s1 "tokenizer html"]
  obtain b where "run ?s1 (tokenizer html) \<lparr>rootNodes = [], stack = []\<rparr> = Inr b"
    by (elim exE conjE)
  then have "fst (parse tokenizer html css s0) = Inr (rootNodes b)"
    by (simp add: parse_def Let_def)
  then show "\<exists>ns. fst (parse tokenizer html css s0) = Inr ns" by (rule exI)
next
  let ?s1 = "s0\<lparr>cssRules := parseCss (allCss html css)\<rparr>"
  show "(\<forall>e \<in> set (tokenizer html). \<not> is_open e)
           \<longrightarrow> fst (parse tokenizer html css s0) = Inr []"
  proof
    assume "\<forall>e \<in> set (tokenizer html). \<not> is_open e"
    then have "run ?s1 (tokenizer html) \<lparr>rootNodes = [], stack = []\<rparr>
                 = Inr \<lparr>rootNodes = [], stack = []\<rparr>"
      by (simp add: run_no_open)
    then show "fst (parse tokenizer html css s0) = Inr []"
      by (simp add: parse_def Let_def)
  qed
qed

theorem parse_returns_nodes_witness:
  "list_all (\<lambda>e. \<not> is_open e) ((\<lambda>h. if h = [] then [] else [ontext h]) ''no markup'')
     \<and> fst (parse (\<lambda>h. if h = [] then [] else [ontext h]) ''no markup''
              (Some ''p { color'') \<lparr>cssRules = []\<rparr>) = Inr []
     \<and> fst (parse (\<lambda>h. if h = [] then [] else [ontext h]) [] None \<lparr>cssRules = []\<rparr>) = Inr []"
proof -
  let ?tok = "\<lambda>h. if h = [] then [] else [ontext h]"
  have h1: "\<forall>e \<in> set (?tok ''no markup''). \<not> is_open e" by simp
  have h2: "\<forall>e \<in> set (?tok []). \<not> is_open e" by simp
  from parse_returns_nodes [of ?tok "''no markup''" "Some ''p { color''" "\<lparr>cssRules = []\<rparr>"] h1
  have r1: "fst (parse ?tok ''no markup'' (Some ''p { color'') \<lparr>cssRules = []\<rparr>) = Inr []"
    by (elim conjE impE)
  from parse_returns_nodes [of ?tok "[]" None "\<lparr>cssRules = []\<rparr>"] h2
  have r2: "fst (parse ?tok [] None \<lparr>cssRules = []\<rparr>) = Inr []"
    by (elim conjE impE)
  have h0: "list_all (\<lambda>e. \<not> is_open e) (?tok ''no markup'')" by simp
  from h0 r1 r2 show ?thesis by (intro conjI)
qed

text \<open>
  C10. With the tokenizer taken as a function of the markup, the result of a call
  does not depend on the static rule list that it finds: the field is assigned from
  the arguments before any event is handled.  So a call that follows any other call
  returns what a first call with the same arguments returns, and two calls with the
  same arguments return the same forest.
\<close>

lemma static_update: "(s :: static)\<lparr>cssRules := x\<rparr> = \<lparr>cssRules = x\<rparr>"
  by (cases s) simp

theorem parse_ignores_previous_static:
  "parse tokenizer html css s = parse tokenizer html css s'
     \<and> fst (parse tokenizer html css (snd (parse tokenizer html' css' s)))
         = fst (parse tokenizer html css s)"
  by (simp add: parse_def Let_def static_update)

theorem parse_ignores_previous_static_witness:
  "fst (parse (\<lambda>h. [onopentag ''p'' [], onclosetag ''p'']) ''<p></p>'' (Some ''p{color:red}'')
          (snd (parse (\<lambda>h. [onopentag ''p'' [], onclosetag ''p'']) ''<p></p>''
                  (Some ''p{color:blue}'') \<lparr>cssRules = []\<rparr>)))
     = fst (parse (\<lambda>h. [onopentag ''p'' [], onclosetag ''p'']) ''<p></p>'' (Some ''p{color:red}'')
              \<lparr>cssRules = []\<rparr>)"
  using parse_ignores_previous_static [of "\<lambda>h. [onopentag ''p'' [], onclosetag ''p'']"
      "''<p></p>''" "Some ''p{color:red}''" "\<lparr>cssRules = []\<rparr>" "\<lparr>cssRules = []\<rparr>"
      "''<p></p>''" "Some ''p{color:blue}''"]
  by (elim conjE)

text \<open>
  C2. The events of \<^verbatim>\<open><div><unknown></unknown>x</div>\<close>: the open event of the
  unsupported tag creates nothing and pushes nothing, but its close event pops the
  element below, so the text that follows finds an empty stack and is dropped.  The
  same events without the unsupported pair give the division with the text as its
  child.
\<close>

theorem unsupported_close_pops_parent:
  "map_sum id (map (\<lambda>n. (n_type n, map n_text (children_of n))))
     (fst (parse (\<lambda>h. [onopentag ''div'' [], onopentag ''unknown'' [], onclosetag ''unknown'',
                       ontext ''x'', onclosetag ''div''])
            ''<div><unknown></unknown>x</div>'' None \<lparr>cssRules = []\<rparr>))
   = Inr [(T_block, [])]
  \<and> map_sum id (map (\<lambda>n. (n_type n, map n_text (children_of n))))
     (fst (parse (\<lambda>h. [onopentag ''div'' [], ontext ''x'', onclosetag ''div''])
            ''<div>x</div>'' None \<lparr>cssRules = []\<rparr>))
   = Inr [(T_block, [Some ''x''])]"
  by code_simp

section \<open>Properties of the cascade\<close>

lemma fold_rules_add:
  "fold (\<lambda>r m. if P r then m ++ d r else m) rules m0
     = m0 ++ fold (\<lambda>r m. if P r then m ++ d r else m) rules Map.empty"
proof (induction rules arbitrary: m0)
  case Nil
  show ?case by simp
next
  case (Cons r rules)
  show ?case
  proof (cases "P r")
    case True
    have "fold (\<lambda>r m. if P r then m ++ d r else m) (r # rules) m0
            = (m0 ++ d r) ++ fold (\<lambda>r m. if P r then m ++ d r else m) rules Map.empty"
      using True Cons.IH [of "m0 ++ d r"] by simp
    moreover have "fold (\<lambda>r m. if P r then m ++ d r else m) (r # rules) Map.empty
            = d r ++ fold (\<lambda>r m. if P r then m ++ d r else m) rules Map.empty"
      using True Cons.IH [of "d r"] by simp
    ultimately show ?thesis by simp
  next
    case False
    then show ?thesis using Cons.IH [of m0] by simp
  qed
qed

lemma fold_rules_append:
  "fold (\<lambda>r m. if P r then m ++ d r else m) (xs @ ys) Map.empty
     = fold (\<lambda>r m. if P r then m ++ d r else m) xs Map.empty
       ++ fold (\<lambda>r m. if P r then m ++ d r else m) ys Map.empty"
  using fold_rules_add [of P d ys "fold (\<lambda>r m. if P r then m ++ d r else m) xs Map.empty"]
  by simp

lemma fold_rules_filter:
  "fold (\<lambda>r m. if P r then m ++ d r else m) rules m0
     = fold (\<lambda>r m. m ++ d r) (filter P rules) m0"
  by (induction rules arbitrary: m0) simp_all

lemma fold_rules_none:
  "\<forall>r \<in> set rules. P r \<longrightarrow> d r p = None
     \<Longrightarrow> fold (\<lambda>r m. if P r then m ++ d r else m) rules m0 p = m0 p"
  by (induction rules arbitrary: m0) (simp_all add: map_add_def)

lemma applyCssRules_append:
  "applyCssRules \<lparr>cssRules = xs @ ys\<rparr> t c i
     = applyCssRules \<lparr>cssRules = xs\<rparr> t c i ++ applyCssRules \<lparr>cssRules = ys\<rparr> t c i"
  unfolding applyCssRules_def
  using fold_rules_append [of "\<lambda>r. matchesSelector (fst r) t c i" "\<lambda>r. declarationStyles (snd r)" xs ys]
  by simp

text \<open>
  C3. The styles that the rules give an element are those of the matching rules,
  merged over an empty map in the order of the rule list, each rule overwriting the
  properties it sets.  So when a matching rule sets a property and no matching rule
  after it in the list does, its value is the result, whatever the rules before it
  set.
\<close>

theorem later_rule_wins:
  "applyCssRules s t c i
     = fold (\<lambda>r m. m ++ declarationStyles (snd r))
         (filter (\<lambda>r. matchesSelector (fst r) t c i) (cssRules s)) Map.empty
   \<and> (cssRules s = earlier @ r # later
        \<and> matchesSelector (fst r) t c i
        \<and> declarationStyles (snd r) p = Some v
        \<and> (\<forall>r' \<in> set later. matchesSelector (fst r') t c i
               \<longrightarrow> declarationStyles (snd r') p = None)
      \<longrightarrow> applyCssRules s t c i p = Some v)"
proof (rule conjI)
  show "applyCssRules s t c i
     = fold (\<lambda>r m. m ++ declarationStyles (snd r))
         (filter (\<lambda>r. matchesSelector (fst r) t c i) (cssRules s)) Map.empty"
    unfolding applyCssRules_def by (rule fold_rules_filter)
next
  show "cssRules s = earlier @ r # later
        \<and> matchesSelector (fst r) t c i
        \<and> declarationStyles (snd r) p = Some v
        \<and> (\<forall>r' \<in> set later. matchesSelector (fst r') t c i
               \<longrightarrow> declarationStyles (snd r') p = None)
      \<longrightarrow> applyCssRules s t c i p = Some v"
  proof
    let ?P = "\<lambda>r. matchesSelector (fst r) t c i"
    let ?d = "\<lambda>r. declarationStyles (snd r)"
    let ?f = "\<lambda>r m. if ?P r then m ++ ?d r else m"
    assume h: "cssRules s = earlier @ r # later
        \<and> matchesSelector (fst r) t c i
        \<and> declarationStyles (snd r) p = Some v
        \<and> (\<forall>r' \<in> set later. matchesSelector (fst r') t c i
               \<longrightarrow> declarationStyles (snd r') p = None)"
    then have rs: "cssRules s = earlier @ r # later" and m: "?P r" and dv: "?d r p = Some v"
      and l: "\<forall>r' \<in> set later. ?P r' \<longrightarrow> ?d r' p = None"
      by simp_all
    have "applyCssRules s t c i = fold ?f (earlier @ r # later) Map.empty"
      by (simp add: applyCssRules_def rs)
    also have "\<dots> = fold ?f later (fold ?f earlier Map.empty ++ ?d r)"
      using m by simp
    finally have "applyCssRules s t c i p = (fold ?f earlier Map.empty ++ ?d r) p"
      using fold_rules_none [of later ?P ?d p] l by simp
    with dv show "applyCssRules s t c i p = Some v" by (simp add: map_add_def)
  qed
qed

theorem later_rule_wins_witness:
  "matchesSelector ''p'' ''p'' [''x''] None
   \<and> declarationStyles [(''color'', ''blue'')] color = Some (Str ''blue'')
   \<and> matchesSelector ''p'' ''p'' [''x''] None
   \<and> declarationStyles [(''margin'', ''3'')] color = None
   \<and> \<not> matchesSelector ''div'' ''p'' [''x''] None
   \<and> applyCssRules
         \<lparr>cssRules = parseCss ''p{color:blue} .x{color:green} p{margin:3} div{color:red}''\<rparr>
         ''p'' [''x''] None color
     = Some (Str ''green'')"
proof -
  let ?s = "\<lparr>cssRules = parseCss ''p{color:blue} .x{color:green} p{margin:3} div{color:red}''\<rparr>"
  let ?r1 = "(''p'', [(''color'', ''blue'')])"
  let ?r2 = "(''.x'', [(''color'', ''green'')])"
  let ?r3 = "(''p'', [(''margin'', ''3'')])"
  let ?r4 = "(''div'', [(''color'', ''red'')])"
  have rs: "cssRules ?s = [?r1] @ ?r2 # [?r3, ?r4]" by code_simp
  have m: "matchesSelector (fst ?r2) ''p'' [''x''] None" by code_simp
  have m1: "matchesSelector ''p'' ''p'' [''x''] None" by code_simp
  have d1: "declarationStyles [(''color'', ''blue'')] color = Some (Str ''blue'')" by code_simp
  have d: "declarationStyles (snd ?r2) color = Some (Str ''green'')" by code_simp
  have l3: "declarationStyles [(''margin'', ''3'')] color = None" by code_simp
  have l4: "\<not> matchesSelector ''div'' ''p'' [''x''] None" by code_simp
  have l: "\<forall>r' \<in> set [?r3, ?r4]. matchesSelector (fst r') ''p'' [''x''] None
               \<longrightarrow> declarationStyles (snd r') color = None"
    by (simp add: l3 l4)
  from later_rule_wins [of ?s "''p''" "[''x'']" None "[?r1]" ?r2 "[?r3, ?r4]" color "Str ''green''"]
  have "cssRules ?s = [?r1] @ ?r2 # [?r3, ?r4]
        \<and> matchesSelector (fst ?r2) ''p'' [''x''] None
        \<and> declarationStyles (snd ?r2) color = Some (Str ''green'')
        \<and> (\<forall>r' \<in> set [?r3, ?r4]. matchesSelector (fst r') ''p'' [''x''] None
               \<longrightarrow> declarationStyles (snd r') color = None)
      \<longrightarrow> applyCssRules ?s ''p'' [''x''] None color = Some (Str ''green'')"
    by (rule conjunct2)
  moreover from rs m d l have "cssRules ?s = [?r1] @ ?r2 # [?r3, ?r4]
        \<and> matchesSelector (fst ?r2) ''p'' [''x''] None
        \<and> declarationStyles (snd ?r2) color = Some (Str ''green'')
        \<and> (\<forall>r' \<in> set [?r3, ?r4]. matchesSelector (fst r') ''p'' [''x''] None
               \<longrightarrow> declarationStyles (snd r') color = None)"
    by (intro conjI)
  ultimately have r: "applyCssRules ?s ''p'' [''x''] None color = Some (Str ''green'')"
    by (rule mp)
  from m1 d1 m1 l3 l4 r show ?thesis by (intro conjI)
qed

section \<open>Splitting a declaration\<close>

lemma split_on_no_sep: "c \<notin> set k \<Longrightarrow> split_on c k = [k]"
  by (induction k) auto

lemma split_on_sep: "c \<notin> set k \<Longrightarrow> split_on c (k @ c # rest) = k # split_on c rest"
  by (induction k) auto

text \<open>
  C5, as the code has it.  Both parsers split a declaration at every colon and use
  the first two pieces only: the key is the trimmed text before the first colon, the
  value is the trimmed text between the first and the second colon, and what follows a
  second colon is ignored.  A declaration whose key or value is empty, or that has no
  colon, changes nothing.
\<close>

theorem declaration_split_at_colons:
  assumes k: "CHR '':'' \<notin> set k" and v: "CHR '':'' \<notin> set v"
  shows "parseStyles_rule (k @ '':'' @ v @ '':'' @ rest) st = parseStyles_rule (k @ '':'' @ v) st
     \<and> parseCss_decl (k @ '':'' @ v @ '':'' @ rest) obj = parseCss_decl (k @ '':'' @ v) obj
     \<and> parseCss_decl (k @ '':'' @ v) obj
         = (if trim k \<noteq> [] \<and> trim v \<noteq> [] then obj_assign (trim k) (trim v) obj else obj)
     \<and> (trim k = ''color'' \<and> trim v \<noteq> []
          \<longrightarrow> parseStyles_rule (k @ '':'' @ v) st = st(color \<mapsto> Str (trim v)))
     \<and> (trim k = [] \<or> trim v = [] \<longrightarrow> parseStyles_rule (k @ '':'' @ v) st = st)
     \<and> parseStyles_rule k st = st
     \<and> parseCss_decl k obj = obj"
proof -
  have s1: "split_on (CHR '':'') (k @ '':'' @ v) = [k, v]"
    using k v by (simp add: split_on_sep split_on_no_sep)
  have s2: "split_on (CHR '':'') (k @ '':'' @ v @ '':'' @ rest) = k # v # split_on (CHR '':'') rest"
    using k v by (simp add: split_on_sep)
  have s3: "split_on (CHR '':'') k = [k]" using k by (simp add: split_on_no_sep)
  have a: "parseStyles_rule (k @ '':'' @ v @ '':'' @ rest) st = parseStyles_rule (k @ '':'' @ v) st"
    unfolding parseStyles_rule_def s1 s2 by simp
  have b: "parseCss_decl (k @ '':'' @ v @ '':'' @ rest) obj = parseCss_decl (k @ '':'' @ v) obj"
    unfolding parseCss_decl_def s1 s2 by simp
  have c: "parseCss_decl (k @ '':'' @ v) obj
         = (if trim k \<noteq> [] \<and> trim v \<noteq> [] then obj_assign (trim k) (trim v) obj else obj)"
    unfolding parseCss_decl_def s1 by simp
  have d: "trim k = ''color'' \<and> trim v \<noteq> []
          \<longrightarrow> parseStyles_rule (k @ '':'' @ v) st = st(color \<mapsto> Str (trim v))"
    unfolding parseStyles_rule_def s1 by simp
  have d': "trim k = [] \<or> trim v = [] \<longrightarrow> parseStyles_rule (k @ '':'' @ v) st = st"
    unfolding parseStyles_rule_def s1 by auto
  have e: "parseStyles_rule k st = st" unfolding parseStyles_rule_def s3 by simp
  have f: "parseCss_decl k obj = obj" unfolding parseCss_decl_def s3 by simp
  from a b c d d' e f show ?thesis by (intro conjI)
qed

theorem declaration_split_at_colons_witness:
  "parseStyles_rule ''color: a:b'' Map.empty = parseStyles_rule ''color: a'' Map.empty
   \<and> parseStyles_rule ''color: a'' Map.empty color = Some (Str ''a'')
   \<and> parseCss_decl ''color: a:b'' [] = [(''color'', ''a'')]
   \<and> parseCss_decl ''color'' [] = []
   \<and> parseStyles_rule '' : red'' Map.empty = Map.empty"
proof -
  have k: "CHR '':'' \<notin> set ''color''" by simp
  have v: "CHR '':'' \<notin> set '' a''" by simp
  note t = declaration_split_at_colons [OF k v, of "''b''" Map.empty "[]"]
  have tk: "trim ''color'' = ''color''" by code_simp
  have tv: "trim '' a'' = ''a''" by code_simp
  have oa: "obj_assign ''color'' ''a'' [] = [(''color'', ''a'')]" by code_simp
  from t have r1: "parseStyles_rule ''color: a:b'' Map.empty = parseStyles_rule ''color: a'' Map.empty"
    by simp
  from t have "parseStyles_rule ''color: a'' Map.empty = Map.empty(color \<mapsto> Str ''a'')"
    by (simp add: tk tv)
  then have r2: "parseStyles_rule ''color: a'' Map.empty color = Some (Str ''a'')" by simp
  from t have r3: "parseCss_decl ''color: a:b'' [] = [(''color'', ''a'')]"
    by (simp add: tk tv oa)
  from t have r4: "parseCss_decl ''color'' [] = []" by simp
  have k': "CHR '':'' \<notin> set '' ''" by simp
  have v': "CHR '':'' \<notin> set '' red''" by simp
  have tk': "trim '' '' = []" by code_simp
  from declaration_split_at_colons [OF k' v', of "[]" Map.empty "[]"]
  have r5: "parseStyles_rule '' : red'' Map.empty = Map.empty"
    by (simp add: tk')
  from r1 r2 r3 r4 r5 show ?thesis by (intro conjI)
qed

text \<open>
  The claim as stated fails: for the declaration \<open>color: a:b\<close> the value is \<open>a\<close>,
  not the remainder \<open>a:b\<close>, in the inline parser and in the rule parser.
\<close>

theorem declaration_value_truncated:
  "parseStyles (Some ''color: a:b'') color = Some (Str ''a'')
   \<and> parseStyles (Some ''color: a:b'') color \<noteq> Some (Str ''a:b'')
   \<and> parseCss ''p { color: a:b }'' = [(''p'', [(''color'', ''a'')])]
   \<and> parseCss ''p { color: a:b }'' \<noteq> [(''p'', [(''color'', ''a:b'')])]"
  by code_simp

section \<open>Embedded and external style text\<close>

lemma rule_match_closed_append:
  assumes ne: "s \<noteq> []" and l: "last s = CHR 0x7D"
  shows "rule_match (s @ z) = map_option (\<lambda>(g1, g2, r). (g1, g2, r @ z)) (rule_match s)"
proof -
  let ?nb = "\<lambda>c. \<not> is_brace c"
  let ?nc = "\<lambda>c. c \<noteq> CHR 0x7D"
  have m: "CHR 0x7D \<in> set s" using ne l last_in_set by metis
  have b: "\<not> ?nb (CHR 0x7D)" by (simp add: is_brace_def)
  have t1: "takeWhile ?nb (s @ z) = takeWhile ?nb s" using m b by (rule takeWhile_append1)
  have d1: "dropWhile ?nb (s @ z) = dropWhile ?nb s @ z" using m b by (rule dropWhile_append1)
  have dn: "dropWhile ?nb s \<noteq> []" using m b by (auto simp: dropWhile_eq_Nil_conv)
  then obtain c r' where r: "dropWhile ?nb s = c # r'" by (cases "dropWhile ?nb s") auto
  have sp: "s = takeWhile ?nb s @ c # r'" using r takeWhile_dropWhile_id [of ?nb s] by simp
  show ?thesis
  proof (cases "c = CHR 0x7B")
    case False
    then show ?thesis by (simp add: rule_match_def Let_def t1 d1 r)
  next
    case True
    have lr: "last (c # r') = CHR 0x7D" using sp l by (metis last_appendR list.discI)
    with True have rn: "r' \<noteq> []" by auto
    with lr have "last r' = CHR 0x7D" by simp
    with rn have m2: "CHR 0x7D \<in> set r'" using last_in_set by metis
    have b2: "\<not> ?nc (CHR 0x7D)" by simp
    have t2: "takeWhile ?nc (r' @ z) = takeWhile ?nc r'" using m2 b2 by (rule takeWhile_append1)
    have d2: "dropWhile ?nc (r' @ z) = dropWhile ?nc r' @ z" using m2 b2 by (rule dropWhile_append1)
    have "dropWhile ?nc r' \<noteq> []" using m2 by (auto simp: dropWhile_eq_Nil_conv)
    then obtain x rest where r2: "dropWhile ?nc r' = x # rest" by (cases "dropWhile ?nc r'") auto
    show ?thesis using True by (simp add: rule_match_def Let_def t1 d1 r t2 d2 r2)
  qed
qed

lemma rule_match_suffix: "rule_match s = Some (g1, g2, r) \<Longrightarrow> \<exists>pre. s = pre @ r"
proof -
  let ?nb = "\<lambda>c. \<not> is_brace c"
  let ?nc = "\<lambda>c. c \<noteq> CHR 0x7D"
  assume m: "rule_match s = Some (g1, g2, r)"
  then obtain b r' where r': "dropWhile ?nb s = b # r'"
    by (auto simp: rule_match_def Let_def split: if_splits list.splits)
  with m obtain x where r'': "dropWhile ?nc r' = x # r"
    by (auto simp: rule_match_def Let_def split: if_splits list.splits)
  have "s = takeWhile ?nb s @ b # r'" using r' takeWhile_dropWhile_id [of ?nb s] by simp
  moreover have "r' = takeWhile ?nc r' @ x # r" using r'' takeWhile_dropWhile_id [of ?nc r'] by simp
  ultimately have "s = (takeWhile ?nb s @ b # takeWhile ?nc r' @ [x]) @ r" by simp
  then show ?thesis by blast
qed

lemma parseCss_closed_append:
  "u = [] \<or> last u = CHR 0x7D \<Longrightarrow> parseCss (u @ z) = parseCss u @ parseCss z"
proof (induction u rule: parseCss.induct)
  case 1
  show ?case by simp
next
  case (2 c cs)
  from "2.prems" have l: "last (c # cs) = CHR 0x7D" by simp
  have rm: "rule_match ((c # cs) @ z) = map_option (\<lambda>(g1, g2, r). (g1, g2, r @ z)) (rule_match (c # cs))"
    using l by (intro rule_match_closed_append) simp_all
  show ?case
  proof (cases "rule_match (c # cs)")
    case None
    have "cs = [] \<or> last cs = CHR 0x7D" using l by (cases cs) auto
    then have "parseCss (cs @ z) = parseCss cs @ parseCss z" using "2.IH"(1) None by simp
    moreover have "parseCss ((c # cs) @ z) = parseCss (cs @ z)" using rm None by simp
    ultimately show ?thesis using None by simp
  next
    case (Some t)
    obtain g1 g2 rest where t: "t = (g1, g2, rest)" by (cases t)
    from rule_match_suffix Some t obtain pre where pre: "c # cs = pre @ rest" by blast
    have "rest = [] \<or> last rest = CHR 0x7D"
    proof (cases "rest = []")
      case True
      then show ?thesis by simp
    next
      case False
      then have "last rest = last (c # cs)" using pre by (metis last_appendR)
      with l show ?thesis by simp
    qed
    then have "parseCss (rest @ z) = parseCss rest @ parseCss z"
      using "2.IH"(2) Some t by simp
    moreover have "parseCss ((c # cs) @ z) = (trim g1, declarations g2) # parseCss (rest @ z)"
      using rm Some t by simp
    ultimately show ?thesis using Some t by simp
  qed
qed

lemma trim_space_cons: "is_space w \<Longrightarrow> trim (w # g) = trim g"
  by (simp add: trim_def)

lemma space_not_brace: "is_space w \<Longrightarrow> \<not> is_brace w"
  by (auto simp: is_space_def is_brace_def)

lemma parseCss_space_cons:
  assumes w: "is_space w" and s: "take 1 s \<noteq> [CHR 0x7B]"
  shows "parseCss (w # s) = parseCss s"
proof -
  let ?nb = "\<lambda>c. \<not> is_brace c"
  have nb: "\<not> is_brace w" using w by (rule space_not_brace)
  show ?thesis
  proof (cases "takeWhile ?nb s = []")
    case True
    have "rule_match (w # s) = None"
    proof (cases s)
      case Nil
      then show ?thesis using nb by (simp add: rule_match_def)
    next
      case (Cons c cs)
      with True have "is_brace c" by (auto split: if_splits)
      moreover from Cons s have "c \<noteq> CHR 0x7B" by simp
      ultimately show ?thesis using nb Cons by (simp add: rule_match_def)
    qed
    then show ?thesis by simp
  next
    case False
    then obtain c cs where cs: "s = c # cs" by (cases s) auto
    have d: "dropWhile ?nb (w # s) = dropWhile ?nb s"
      and t: "takeWhile ?nb (w # s) = w # takeWhile ?nb s"
      using nb by simp_all
    have rm: "rule_match (w # s) = map_option (\<lambda>(g1, g2, rest). (w # g1, g2, rest)) (rule_match s)"
    proof (cases "dropWhile ?nb s")
      case Nil
      show ?thesis by (simp add: rule_match_def Let_def nb Nil False)
    next
      case r: (Cons b r')
      show ?thesis
      proof (cases "dropWhile (\<lambda>c. c \<noteq> CHR 0x7D) r'")
        case Nil
        show ?thesis by (simp add: rule_match_def Let_def nb r Nil False)
      next
        case (Cons y rest)
        show ?thesis by (simp add: rule_match_def Let_def nb r Cons False)
      qed
    qed
    show ?thesis
    proof (cases "rule_match s")
      case None
      with rm show ?thesis by simp
    next
      case (Some t)
      obtain g1 g2 rest where t: "t = (g1, g2, rest)" by (cases t)
      with rm Some have "parseCss (w # s) = (trim (w # g1), declarations g2) # parseCss rest"
        by simp
      moreover from Some t cs have "parseCss s = (trim g1, declarations g2) # parseCss rest"
        by simp
      ultimately show ?thesis using w by (simp add: trim_space_cons)
    qed
  qed
qed

lemma parseCss_spaces:
  "list_all is_space ws \<Longrightarrow> take 1 x \<noteq> [CHR 0x7B] \<Longrightarrow> parseCss (ws @ x) = parseCss x"
proof (induction ws)
  case Nil
  show ?case by simp
next
  case (Cons w ws)
  then have w: "is_space w" and ih: "parseCss (ws @ x) = parseCss x" by simp_all
  have "take 1 (ws @ x) \<noteq> [CHR 0x7B]"
  proof (cases ws)
    case Nil
    with Cons.prems show ?thesis by simp
  next
    case (Cons v vs)
    with Cons.prems have "is_space v" by simp
    then have "v \<noteq> CHR 0x7B" by (auto simp: is_space_def)
    with Cons show ?thesis by simp
  qed
  with w have "parseCss (w # ws @ x) = parseCss (ws @ x)" by (rule parseCss_space_cons)
  with ih show ?case by simp
qed

lemma ends_with_brace_split:
  assumes "ends_with_brace e"
  shows "\<exists>u ws. e = u @ ws \<and> u \<noteq> [] \<and> last u = CHR 0x7D \<and> list_all is_space ws"
proof -
  let ?u = "rev (dropWhile is_space (rev e))"
  let ?ws = "rev (takeWhile is_space (rev e))"
  from assms obtain r where d: "dropWhile is_space (rev e) = CHR 0x7D # r"
    by (auto simp: ends_with_brace_def split: list.splits)
  have "rev e = takeWhile is_space (rev e) @ dropWhile is_space (rev e)" by simp
  then have "rev (rev e) = rev (takeWhile is_space (rev e) @ dropWhile is_space (rev e))"
    by (rule arg_cong)
  then have e: "e = ?u @ ?ws" by (simp del: takeWhile_dropWhile_id)
  have "?u \<noteq> []" using d by simp
  moreover have "last ?u = CHR 0x7D" using d by simp
  moreover have "list_all is_space ?ws"
    by (simp add: list_all_iff) (metis set_takeWhileD)
  ultimately show ?thesis using e by blast
qed

lemma parseCss_embedded_external:
  assumes eb: "ends_with_brace e" and x: "take 1 x \<noteq> [CHR 0x7B]"
  shows "parseCss (e @ ''\<newline>'' @ x) = parseCss e @ parseCss x"
proof -
  from ends_with_brace_split [OF eb] obtain u ws where e: "e = u @ ws" and l: "last u = CHR 0x7D"
    and ws: "list_all is_space ws" by blast
  have wsn: "list_all is_space (ws @ ''\<newline>'')" using ws by (simp add: is_space_def)
  have "parseCss (e @ ''\<newline>'' @ x) = parseCss (u @ ((ws @ ''\<newline>'') @ x))" by (simp add: e)
  also have "\<dots> = parseCss u @ parseCss ((ws @ ''\<newline>'') @ x)"
    using l by (intro parseCss_closed_append) simp
  also have "parseCss ((ws @ ''\<newline>'') @ x) = parseCss x" using wsn x by (rule parseCss_spaces)
  finally have a: "parseCss (e @ ''\<newline>'' @ x) = parseCss u @ parseCss x" .
  have "parseCss e = parseCss u @ parseCss (ws @ [])"
    unfolding e using l by (simp add: parseCss_closed_append)
  also have "parseCss (ws @ []) = parseCss []" using ws by (intro parseCss_spaces) simp_all
  finally have "parseCss e = parseCss u" by simp
  with a show ?thesis by simp
qed


lemma trim_Nil_iff: "trim e = [] \<longleftrightarrow> (\<forall>c \<in> set e. is_space c)"
proof -
  have "trim e = [] \<longleftrightarrow> (\<forall>c \<in> set (dropWhile is_space e). is_space c)"
    by (simp add: trim_def dropWhile_eq_Nil_conv)
  moreover have "set e = set (takeWhile is_space e) \<union> set (dropWhile is_space e)"
    by (metis set_append takeWhile_dropWhile_id)
  moreover have "\<forall>c \<in> set (takeWhile is_space e). is_space c"
    by (metis set_takeWhileD)
  ultimately show ?thesis by blast
qed

lemma ends_with_brace_not_blank: "ends_with_brace e \<Longrightarrow> trim e \<noteq> []"
proof -
  assume "ends_with_brace e"
  then obtain u ws where e: "e = u @ ws" and u: "u \<noteq> []" and l: "last u = CHR 0x7D"
    using ends_with_brace_split by blast
  have "CHR 0x7D \<in> set e" using e u l last_in_set by fastforce
  moreover have "\<not> is_space (CHR 0x7D)" by (simp add: is_space_def)
  ultimately show ?thesis by (auto simp: trim_Nil_iff)
qed

lemma allCss_both:
  "trim (extractStyleTags html) \<noteq> [] \<Longrightarrow> trim x \<noteq> []
     \<Longrightarrow> allCss html (Some x) = extractStyleTags html @ ''\<newline>'' @ x"
  by (simp add: allCss_def)

lemma applyCssRules_append_at:
  "applyCssRules \<lparr>cssRules = xs @ ys\<rparr> t c i p
     = (case applyCssRules \<lparr>cssRules = ys\<rparr> t c i p of
          Some v \<Rightarrow> Some v
        | None \<Rightarrow> applyCssRules \<lparr>cssRules = xs\<rparr> t c i p)"
  by (simp add: applyCssRules_append map_add_def)

text \<open>
  C4, as the code has it.  When the embedded text and the external text are both not
  blank, the style text that is parsed is the embedded text (the contents of the style
  blocks in their order, each followed by a line feed), a line feed, and the external
  text.  When moreover the embedded text ends, white space apart, with a closing brace
  and the external text does not begin with an opening brace, the rules of the
  concatenation are the rules of the embedded text followed by the rules of the
  external text, so for every element and property the value that the external rules
  give wins over the value that the embedded rules give.
\<close>

theorem embedded_rules_before_external:
  "(trim (extractStyleTags html) \<noteq> [] \<and> trim x \<noteq> []
      \<longrightarrow> allCss html (Some x) = extractStyleTags html @ ''\<newline>'' @ x)
   \<and> (ends_with_brace (extractStyleTags html) \<and> trim x \<noteq> [] \<and> take 1 x \<noteq> [CHR 0x7B]
      \<longrightarrow> parseCss (allCss html (Some x)) = parseCss (extractStyleTags html) @ parseCss x
          \<and> applyCssRules \<lparr>cssRules = parseCss (allCss html (Some x))\<rparr> t c i p
              = (case applyCssRules \<lparr>cssRules = parseCss x\<rparr> t c i p of
                   Some v \<Rightarrow> Some v
                 | None \<Rightarrow> applyCssRules \<lparr>cssRules = parseCss (extractStyleTags html)\<rparr> t c i p))"
proof (intro conjI impI)
  assume "trim (extractStyleTags html) \<noteq> [] \<and> trim x \<noteq> []"
  then show "allCss html (Some x) = extractStyleTags html @ ''\<newline>'' @ x"
    by (simp add: allCss_both)
next
  assume h: "ends_with_brace (extractStyleTags html) \<and> trim x \<noteq> [] \<and> take 1 x \<noteq> [CHR 0x7B]"
  then have "trim (extractStyleTags html) \<noteq> []" by (simp add: ends_with_brace_not_blank)
  with h have a: "allCss html (Some x) = extractStyleTags html @ ''\<newline>'' @ x"
    by (simp add: allCss_both)
  from h show r: "parseCss (allCss html (Some x)) = parseCss (extractStyleTags html) @ parseCss x"
    unfolding a using parseCss_embedded_external [of "extractStyleTags html" x] by simp
  show "applyCssRules \<lparr>cssRules = parseCss (allCss html (Some x))\<rparr> t c i p
              = (case applyCssRules \<lparr>cssRules = parseCss x\<rparr> t c i p of
                   Some v \<Rightarrow> Some v
                 | None \<Rightarrow> applyCssRules \<lparr>cssRules = parseCss (extractStyleTags html)\<rparr> t c i p)"
    unfolding r by (rule applyCssRules_append_at)
qed

theorem embedded_rules_before_external_witness:
  "allCss ''<style>p{color:blue}</style><p class=x></p><style>.x{color:green}</style>''
       (Some ''p{color:red}'')
     = ''p{color:blue}\<newline>.x{color:green}\<newline>\<newline>p{color:red}''
   \<and> parseCss (allCss ''<style>p{color:blue}</style><p class=x></p><style>.x{color:green}</style>''
       (Some ''p{color:red}''))
     = [(''p'', [(''color'', ''blue'')]), (''.x'', [(''color'', ''green'')]),
        (''p'', [(''color'', ''red'')])]
   \<and> applyCssRules \<lparr>cssRules = parseCss (allCss
          ''<style>p{color:blue}</style><p class=x></p><style>.x{color:green}</style>''
          (Some ''p{color:red}''))\<rparr> ''p'' [''x''] None color = Some (Str ''red'')"
proof -
  let ?html = "''<style>p{color:blue}</style><p class=x></p><style>.x{color:green}</style>''"
  let ?x = "''p{color:red}''"
  have e: "extractStyleTags ?html = ''p{color:blue}\<newline>.x{color:green}\<newline>''" by code_simp
  have h1: "trim (extractStyleTags ?html) \<noteq> [] \<and> trim ?x \<noteq> []" by code_simp
  have h2: "ends_with_brace (extractStyleTags ?html) \<and> trim ?x \<noteq> [] \<and> take 1 ?x \<noteq> [CHR 0x7B]"
    by code_simp
  have pe: "parseCss (extractStyleTags ?html)
      = [(''p'', [(''color'', ''blue'')]), (''.x'', [(''color'', ''green'')])]" by code_simp
  have px: "parseCss ?x = [(''p'', [(''color'', ''red'')])]" by code_simp
  have ax: "applyCssRules \<lparr>cssRules = parseCss ?x\<rparr> ''p'' [''x''] None color = Some (Str ''red'')"
    by code_simp
  note t = embedded_rules_before_external [of ?html ?x "''p''" "[''x'']" None color]
  from t have "trim (extractStyleTags ?html) \<noteq> [] \<and> trim ?x \<noteq> []
      \<longrightarrow> allCss ?html (Some ?x) = extractStyleTags ?html @ ''\<newline>'' @ ?x"
    by (rule conjunct1)
  from this h1 have r1: "allCss ?html (Some ?x) = extractStyleTags ?html @ ''\<newline>'' @ ?x"
    by (rule mp)
  from t have "ends_with_brace (extractStyleTags ?html) \<and> trim ?x \<noteq> [] \<and> take 1 ?x \<noteq> [CHR 0x7B]
      \<longrightarrow> parseCss (allCss ?html (Some ?x)) = parseCss (extractStyleTags ?html) @ parseCss ?x
          \<and> applyCssRules \<lparr>cssRules = parseCss (allCss ?html (Some ?x))\<rparr> ''p'' [''x''] None color
              = (case applyCssRules \<lparr>cssRules = parseCss ?x\<rparr> ''p'' [''x''] None color of
                   Some v \<Rightarrow> Some v
                 | None \<Rightarrow> applyCssRules \<lparr>cssRules = parseCss (extractStyleTags ?html)\<rparr>
                             ''p'' [''x''] None color)"
    by (rule conjunct2)
  from this h2 have r23: "parseCss (allCss ?html (Some ?x)) = parseCss (extractStyleTags ?html) @ parseCss ?x
          \<and> applyCssRules \<lparr>cssRules = parseCss (allCss ?html (Some ?x))\<rparr> ''p'' [''x''] None color
              = (case applyCssRules \<lparr>cssRules = parseCss ?x\<rparr> ''p'' [''x''] None color of
                   Some v \<Rightarrow> Some v
                 | None \<Rightarrow> applyCssRules \<lparr>cssRules = parseCss (extractStyleTags ?html)\<rparr>
                             ''p'' [''x''] None color)"
    by (rule mp)
  from r23 have r2: "parseCss (allCss ?html (Some ?x)) = parseCss (extractStyleTags ?html) @ parseCss ?x"
    by (rule conjunct1)
  from r23 have r3: "applyCssRules \<lparr>cssRules = parseCss (allCss ?html (Some ?x))\<rparr> ''p'' [''x''] None color
              = (case applyCssRules \<lparr>cssRules = parseCss ?x\<rparr> ''p'' [''x''] None color of
                   Some v \<Rightarrow> Some v
                 | None \<Rightarrow> applyCssRules \<lparr>cssRules = parseCss (extractStyleTags ?html)\<rparr>
                             ''p'' [''x''] None color)"
    by (rule conjunct2)
  have s1: "allCss ?html (Some ?x) = ''p{color:blue}\<newline>.x{color:green}\<newline>\<newline>p{color:red}''"
    unfolding r1 e by simp
  have s2: "parseCss (allCss ?html (Some ?x))
     = [(''p'', [(''color'', ''blue'')]), (''.x'', [(''color'', ''green'')]),
        (''p'', [(''color'', ''red'')])]"
    unfolding r2 pe px by simp
  have s3: "applyCssRules \<lparr>cssRules = parseCss (allCss ?html (Some ?x))\<rparr> ''p'' [''x''] None color
      = Some (Str ''red'')"
    unfolding r3 ax by simp
  from s1 s2 s3 show ?thesis by (intro conjI)
qed

text \<open>
  The claim as stated fails.  In
  \<^verbatim>\<open><style>p{color:blue} /* end */</style><p></p>\<close> with the external text
  \<^verbatim>\<open>p{color:red}\<close>, the embedded rule and the external rule both match the
  paragraph and both set its colour, when each text is read alone.  In the
  concatenation the comment left after the embedded block becomes part of the selector of
  the external rule, which then matches nothing, and the embedded rule wins.
\<close>

theorem external_rule_lost_after_trailing_text:
  "applyCssRules \<lparr>cssRules = parseCss (extractStyleTags ''<style>p{color:blue} /* end */</style><p></p>'')\<rparr>
       ''p'' [] None color = Some (Str ''blue'')
   \<and> applyCssRules \<lparr>cssRules = parseCss ''p{color:red}''\<rparr> ''p'' [] None color = Some (Str ''red'')
   \<and> parseCss (allCss ''<style>p{color:blue} /* end */</style><p></p>'' (Some ''p{color:red}''))
       = [(''p'', [(''color'', ''blue'')]), (''/* end */\<newline>\<newline>p'', [(''color'', ''red'')])]
   \<and> map_sum id (map (\<lambda>n. n_styles n color))
        (fst (parse (\<lambda>h. [onopentag ''style'' [], ontext ''p{color:blue} /* end */'', onclosetag ''style'',
                          onopentag ''p'' [], onclosetag ''p''])
                ''<style>p{color:blue} /* end */</style><p></p>'' (Some ''p{color:red}'')
                \<lparr>cssRules = []\<rparr>))
       = Inr [Some (Str ''blue'')]"
  by code_simp

section \<open>Void elements and what follows them\<close>




















section \<open>The style map of a node\<close>

lemma finalStyles_layers:
  "finalStyles s tagName a p =
     (case parseStyles (map_of a ''style'') p of
        Some v \<Rightarrow> Some v
      | None \<Rightarrow>
          (case fold (\<lambda>r m. m ++ declarationStyles (snd r))
                  (filter (\<lambda>r. matchesSelector (fst r) tagName
                                 (case map_of a ''class'' of
                                    None \<Rightarrow> []
                                  | Some c \<Rightarrow> split_on (CHR '' '') c)
                                 (map_of a ''id''))
                     (cssRules s))
                  Map.empty p of
             Some v \<Rightarrow> Some v
           | None \<Rightarrow> getUserAgentStyles tagName p))"
  by (simp add: finalStyles_def baseStyles_def cssStyles_def inlineStyles_def classNames_of_def
        applyCssRules_def fold_rules_filter map_add_def split: option.splits)

lemma createNode_node_styles:
  assumes c: "createNode s name a = Some node"
  shows "n_styles node =
     (if name = ''table''
      then set_opt padding (map_option ParseFloat (truthy a ''cellpadding''))
             (set_opt width (map_option Str (truthy a ''width'')) (finalStyles s name a))
      else if name = ''td'' \<or> name = ''th''
      then set_opt width (map_option Str (truthy a ''width''))
             (set_opt textAlign (map_option Str (truthy a ''align'')) (finalStyles s name a))
      else if name = ''strong'' \<or> name = ''b''
      then (finalStyles s name a)(fontWeight \<mapsto> Str ''bold'')
      else finalStyles s name a)"
proof -
  consider (br) "name = ''br''" | (img) "name = ''img''" | (table) "name = ''table''"
    | (sec) "name = ''thead'' \<or> name = ''tbody''" | (tr) "name = ''tr''"
    | (td) "name = ''td'' \<or> name = ''th''"
    | (blk) "name \<in> set [''h1'', ''h2'', ''h3'', ''h4'', ''h5'', ''h6'', ''p'', ''div'']"
    | (span) "name \<in> set [''span'', ''strong'', ''b'', ''em'', ''i'']"
    | (other) "name \<noteq> ''br''" "name \<noteq> ''img''" "name \<noteq> ''table''"
        "\<not> (name = ''thead'' \<or> name = ''tbody'')" "name \<noteq> ''tr''"
        "\<not> (name = ''td'' \<or> name = ''th'')"
        "name \<notin> set [''h1'', ''h2'', ''h3'', ''h4'', ''h5'', ''h6'', ''p'', ''div'']"
        "name \<notin> set [''span'', ''strong'', ''b'', ''em'', ''i'']"
    by argo
  then show ?thesis
  proof cases
    case br
    with c show ?thesis by (clarsimp simp: createNode_def Let_def)
  next
    case img
    with c show ?thesis by (clarsimp simp: createNode_def Let_def)
  next
    case table
    with c show ?thesis by (clarsimp simp: createNode_def Let_def)
  next
    case sec
    with c show ?thesis by (elim disjE) (clarsimp simp: createNode_def Let_def)+
  next
    case tr
    with c show ?thesis by (clarsimp simp: createNode_def Let_def)
  next
    case td
    with c show ?thesis by (elim disjE) (clarsimp simp: createNode_def Let_def)+
  next
    case blk
    then have "name = ''h1'' \<or> name = ''h2'' \<or> name = ''h3'' \<or> name = ''h4'' \<or> name = ''h5''
       \<or> name = ''h6'' \<or> name = ''p'' \<or> name = ''div''" by simp
    with c show ?thesis by (elim disjE) (clarsimp simp: createNode_def Let_def)+
  next
    case span
    then have "name = ''span'' \<or> name = ''strong'' \<or> name = ''b'' \<or> name = ''em'' \<or> name = ''i''"
      by simp
    with c show ?thesis by (elim disjE) (clarsimp simp: createNode_def Let_def)+
  next
    case other
    with c show ?thesis by (clarsimp simp: createNode_def Let_def)
  qed
qed


text \<open>
  C1, as the code has it.  The style map of the node of an element is, property by
  property, the value of the inline style attribute when it sets the property,
  otherwise the value that the matching rules give (the rules whose selector matches
  the tag, the class list or the id of the element, merged in the order of the rule
  list), otherwise the user-agent value for the tag; except for the properties that
  the node factory overwrites after the merge: fontWeight is bold for strong and b, a
  cellpadding attribute that is not empty gives the padding of a table, a width
  attribute that is not empty gives the width of a table, td or th, and an align
  attribute that is not empty gives the textAlign of a td or th.
\<close>

theorem node_styles_cascade:
  assumes c: "createNode s tagName a = Some node"
  shows "n_styles node p =
     (let attr = (\<lambda>k. case map_of a k of
                          None \<Rightarrow> None
                        | Some v \<Rightarrow> if v = [] then None else Some v);
          inline = parseStyles (map_of a ''style'');
          classes = (case map_of a ''class'' of None \<Rightarrow> [] | Some c \<Rightarrow> split_on (CHR '' '') c);
          matching = filter (\<lambda>r. matchesSelector (fst r) tagName classes (map_of a ''id''))
                       (cssRules s);
          rules = fold (\<lambda>r m. m ++ declarationStyles (snd r)) matching Map.empty;
          merged = (case inline p of
                      Some v \<Rightarrow> Some v
                    | None \<Rightarrow> (case rules p of
                                 Some v \<Rightarrow> Some v
                               | None \<Rightarrow> getUserAgentStyles tagName p))
      in if (tagName = ''strong'' \<or> tagName = ''b'') \<and> p = fontWeight
           then Some (Str ''bold'')
         else if tagName = ''table'' \<and> p = padding \<and> attr ''cellpadding'' \<noteq> None
           then map_option ParseFloat (attr ''cellpadding'')
         else if (tagName = ''table'' \<or> tagName = ''td'' \<or> tagName = ''th'')
                 \<and> p = width \<and> attr ''width'' \<noteq> None
           then map_option Str (attr ''width'')
         else if (tagName = ''td'' \<or> tagName = ''th'') \<and> p = textAlign \<and> attr ''align'' \<noteq> None
           then map_option Str (attr ''align'')
         else merged)"
proof -
  note ns = createNode_node_styles [OF c]
  consider (table) "tagName = ''table''" | (td) "tagName = ''td''" | (th) "tagName = ''th''"
    | (strong) "tagName = ''strong''" | (b) "tagName = ''b''"
    | (other) "tagName \<noteq> ''table''" "tagName \<noteq> ''td''" "tagName \<noteq> ''th''"
        "tagName \<noteq> ''strong''" "tagName \<noteq> ''b''"
    by argo
  then show ?thesis
  proof cases
    case table
    show ?thesis unfolding ns table
      by (simp add: finalStyles_layers set_opt_def truthy_def Let_def split: option.splits)
  next
    case td
    show ?thesis unfolding ns td
      by (simp add: finalStyles_layers set_opt_def truthy_def Let_def split: option.splits)
  next
    case th
    show ?thesis unfolding ns th
      by (simp add: finalStyles_layers set_opt_def truthy_def Let_def split: option.splits)
  next
    case strong
    show ?thesis unfolding ns strong
      by (simp add: finalStyles_layers Let_def)
  next
    case b
    show ?thesis unfolding ns b
      by (simp add: finalStyles_layers Let_def)
  next
    case other
    then show ?thesis unfolding ns
      by (simp add: finalStyles_layers Let_def)
  qed
qed


theorem node_styles_cascade_witness:
  "map_option (\<lambda>n. map (n_styles n) [color, fontSize, backgroundColor, marginTop, marginBottom, textAlign])
      (createNode
         \<lparr>cssRules = parseCss
            ''p{color:blue; font-size:14} .x{background-color:green} div{background-color:red} #q{margin-top:2}''\<rparr>
         ''p'' [(''class'', ''a x''), (''id'', ''q''), (''style'', ''color:red'')])
     = Some [Some (Str ''red''), Some (ParseFloat ''14''), Some (Str ''green''),
             Some (ParseFloat ''2''), Some (Number 10), Some (Str ''left'')]
   \<and> map_option (\<lambda>n. n_styles n fontWeight)
        (createNode \<lparr>cssRules = []\<rparr> ''b'' [(''style'', ''font-weight:normal'')])
     = Some (Some (Str ''bold''))
   \<and> map_option (\<lambda>n. map (n_styles n) [textAlign, width, color])
        (createNode \<lparr>cssRules = []\<rparr> ''td''
           [(''align'', ''center''), (''width'', ''50%''), (''style'', ''text-align:right; width:10'')])
     = Some [Some (Str ''center''), Some (Str ''50%''), Some (Str ''#000000'')]"
proof -
  let ?s = "\<lparr>cssRules = parseCss
            ''p{color:blue; font-size:14} .x{background-color:green} div{background-color:red} #q{margin-top:2}''\<rparr>"
  let ?a = "[(''class'', ''a x''), (''id'', ''q''), (''style'', ''color:red'')]"
  let ?e = "\<lparr>cssRules = []\<rparr>"
  let ?ab = "[(''style'', ''font-weight:normal'')]"
  let ?at = "[(''align'', ''center''), (''width'', ''50%''), (''style'', ''text-align:right; width:10'')]"
  obtain node where n: "createNode ?s ''p'' ?a = Some node"
    by (simp add: createNode_def Let_def)
  note t = node_styles_cascade [OF n]
  have r1: "n_styles node color = Some (Str ''red'')" unfolding t by code_simp
  have r2: "n_styles node fontSize = Some (ParseFloat ''14'')" unfolding t by code_simp
  have r3: "n_styles node backgroundColor = Some (Str ''green'')" unfolding t by code_simp
  have r4: "n_styles node marginTop = Some (ParseFloat ''2'')" unfolding t by code_simp
  have r5: "n_styles node marginBottom = Some (Number 10)" unfolding t by code_simp
  have r6: "n_styles node textAlign = Some (Str ''left'')" unfolding t by code_simp
  obtain nb where b: "createNode ?e ''b'' ?ab = Some nb"
    by (simp add: createNode_def Let_def)
  note tb = node_styles_cascade [OF b]
  have b1: "n_styles nb fontWeight = Some (Str ''bold'')" unfolding tb by code_simp
  obtain nt where d: "createNode ?e ''td'' ?at = Some nt"
    by (simp add: createNode_def Let_def)
  note tt = node_styles_cascade [OF d]
  have d1: "n_styles nt textAlign = Some (Str ''center'')" unfolding tt by code_simp
  have d2: "n_styles nt width = Some (Str ''50%'')" unfolding tt by code_simp
  have d3: "n_styles nt color = Some (Str ''#000000'')" unfolding tt by code_simp
  have w1: "map_option (\<lambda>n. map (n_styles n) [color, fontSize, backgroundColor, marginTop, marginBottom, textAlign])
      (createNode ?s ''p'' ?a)
     = Some [Some (Str ''red''), Some (ParseFloat ''14''), Some (Str ''green''),
             Some (ParseFloat ''2''), Some (Number 10), Some (Str ''left'')]"
    unfolding n by (simp add: r1 r2 r3 r4 r5 r6)
  have w2: "map_option (\<lambda>n. n_styles n fontWeight) (createNode ?e ''b'' ?ab) = Some (Some (Str ''bold''))"
    unfolding b by (simp add: b1)
  have w3: "map_option (\<lambda>n. map (n_styles n) [textAlign, width, color]) (createNode ?e ''td'' ?at)
     = Some [Some (Str ''center''), Some (Str ''50%''), Some (Str ''#000000'')]"
    unfolding d by (simp add: d1 d2 d3)
  from w1 w2 w3 show ?thesis by (intro conjI)
qed

text \<open>
  The claim as stated fails.  In \<^verbatim>\<open><b style=font-weight:normal>\<close> the inline
  declaration sets the weight to normal and the node has bold; in
  \<^verbatim>\<open><td align=center style=text-align:right>\<close> the inline declaration sets the
  alignment to right and the node has center.
\<close>

theorem inline_overwritten_by_node_factory:
  "parseStyles (Some ''font-weight:normal'') fontWeight = Some (Str ''normal'')
   \<and> map_sum id (map (\<lambda>n. n_styles n fontWeight))
        (fst (parse (\<lambda>h. [onopentag ''b'' [(''style'', ''font-weight:normal'')], onclosetag ''b''])
                ''<b style=font-weight:normal></b>'' None \<lparr>cssRules = []\<rparr>))
       = Inr [Some (Str ''bold'')]
   \<and> parseStyles (Some ''text-align:right'') textAlign = Some (Str ''right'')
   \<and> map_sum id (map (\<lambda>n. n_styles n textAlign))
        (fst (parse (\<lambda>h. [onopentag ''td'' [(''align'', ''center''), (''style'', ''text-align:right'')],
                          onclosetag ''td''])
                ''<td align=center style=text-align:right></td>'' None \<lparr>cssRules = []\<rparr>))
       = Inr [Some (Str ''center'')]"
  by code_simp

end
